theory Spec2Isabelle
  imports Complex_Main
begin

section \<open>Configuration constants of the worker\<close>

text \<open>
  The constants of the CONFIG block of the durable worker.  \<open>MAX_PARALLEL\<close> and
  \<open>POLL_INTERVAL\<close> are read from the environment; their defaults are used here.
\<close>

definition MAX_PARALLEL :: nat where
  "MAX_PARALLEL = 4"

definition POLL_INTERVAL :: int where
  "POLL_INTERVAL = 1500"

definition DB_RETRY_ATTEMPTS :: int where
  "DB_RETRY_ATTEMPTS = 3"

definition DB_RETRY_DELAY_MS :: int where
  "DB_RETRY_DELAY_MS = 1000"

definition PROGRESS_UPDATE_INTERVAL_MS :: int where
  "PROGRESS_UPDATE_INTERVAL_MS = 5000"

section \<open>Template strings\<close>

text \<open>
  A template literal \<^verbatim>\<open>${n}\<close> prints an integral number in decimal, with a leading
  minus sign when it is negative.
\<close>

definition digit_char :: "nat \<Rightarrow> char" where
  "digit_char d = ''0123456789'' ! d"

fun string_of_nat :: "nat \<Rightarrow> string" where
  "string_of_nat n =
     (if n < 10 then [digit_char n] else string_of_nat (n div 10) @ [digit_char (n mod 10)])"

declare string_of_nat.simps [simp del]

definition js_number :: "int \<Rightarrow> string" where
  "js_number i = (if i < 0 then CHR ''-'' # string_of_nat (nat (- i)) else string_of_nat (nat i))"

section \<open>The retry wrapper\<close>

text \<open>
  An awaited operation is a state transformer that either rejects with an error (kept as
  its message, the only part of an error the worker ever reads) or resolves to a value.
  What \<open>withRetry\<close> does besides returning is recorded as a trace: each invocation of
  the operation, each \<^verbatim>\<open>console.warn\<close> and each \<^verbatim>\<open>sleep\<close>.
\<close>

type_synonym ('a, 's) async = "'s \<Rightarrow> (string + 'a) \<times> 's"

datatype retry_event =
    Invoked int
  | Warned string int int string
  | Slept int



text \<open>
  The message of the error thrown after the loop:
  \<^verbatim>\<open>`${context} failed after ${maxAttempts} attempts: ${lastError?.message}`\<close>.
\<close>

definition exhausted_message :: "string \<Rightarrow> int \<Rightarrow> string option \<Rightarrow> string" where
  "exhausted_message ctx maxAttempts lastError =
     ctx @ '' failed after '' @ js_number maxAttempts @ '' attempts: ''
     @ (case lastError of None \<Rightarrow> ''undefined'' | Some m \<Rightarrow> m)"

text \<open>
  The \<^verbatim>\<open>for (let attempt = 1; attempt <= maxAttempts; attempt++)\<close> loop of
  \<open>withRetry\<close>, entered with the loop counter and \<^verbatim>\<open>lastError\<close>; the code after
  the loop throws the composite error.
\<close>

function withRetry_from ::
  "int \<Rightarrow> string option \<Rightarrow> ('a, 's) async \<Rightarrow> string \<Rightarrow> int \<Rightarrow> 's
     \<Rightarrow> (string + 'a) \<times> 's \<times> retry_event list" where
  "withRetry_from attempt lastError operation ctx maxAttempts s =
     (if attempt \<le> maxAttempts then
        (case operation s of
           (Inr v, s') \<Rightarrow> (Inr v, s', [Invoked attempt])
         | (Inl msg, s') \<Rightarrow>
             (case withRetry_from (attempt + 1) (Some msg) operation ctx maxAttempts s' of
                (r, s'', tr) \<Rightarrow>
                  (r, s'',
                   [Invoked attempt, Warned ctx attempt maxAttempts msg]
                   @ (if attempt < maxAttempts then [Slept (DB_RETRY_DELAY_MS * attempt)] else [])
                   @ tr)))
      else
        (Inl (exhausted_message ctx maxAttempts lastError), s, []))"
  by pat_completeness auto
termination
  by (relation "measure (\<lambda>(attempt, lastError, operation, ctx, maxAttempts, s).
        nat (maxAttempts + 1 - attempt))") auto

declare withRetry_from.simps [simp del]

text \<open>
  \<open>withRetry(operation, context, maxAttempts = DB_RETRY_ATTEMPTS)\<close>: the optional
  third argument is \<open>None\<close> when the caller leaves it out.
\<close>

definition withRetry ::
  "('a, 's) async \<Rightarrow> string \<Rightarrow> int option \<Rightarrow> 's \<Rightarrow> (string + 'a) \<times> 's \<times> retry_event list" where
  "withRetry operation ctx maxAttempts s =
     withRetry_from 1 None operation ctx
       (case maxAttempts of None \<Rightarrow> DB_RETRY_ATTEMPTS | Some n \<Rightarrow> n) s"

section \<open>Awaiting, catching and releasing\<close>

text \<open>
  The control flow of an \<^verbatim>\<open>async\<close> function: \<open>await m k\<close> runs \<open>m\<close> and continues
  with \<open>k\<close> on its value, or rethrows its error; \<open>try_catch\<close> is
  \<^verbatim>\<open>try { ... } catch (err) { ... }\<close>; \<open>try_finally\<close> runs a synchronous clean-up on
  both exits; \<open>swallow\<close> is \<^verbatim>\<open>.catch(() => { })\<close>.
\<close>

definition resolve :: "'a \<Rightarrow> ('a, 's) async" where
  "resolve v s = (Inr v, s)"

definition reject :: "string \<Rightarrow> ('a, 's) async" where
  "reject e s = (Inl e, s)"

definition await :: "('a, 's) async \<Rightarrow> ('a \<Rightarrow> ('b, 's) async) \<Rightarrow> ('b, 's) async" where
  "await m k s = (case m s of (Inl e, s') \<Rightarrow> (Inl e, s') | (Inr v, s') \<Rightarrow> k v s')"

definition try_catch :: "('a, 's) async \<Rightarrow> (string \<Rightarrow> ('a, 's) async) \<Rightarrow> ('a, 's) async" where
  "try_catch m handler s = (case m s of (Inl e, s') \<Rightarrow> handler e s' | (Inr v, s') \<Rightarrow> (Inr v, s'))"

definition try_finally :: "('a, 's) async \<Rightarrow> ('s \<Rightarrow> 's) \<Rightarrow> ('a, 's) async" where
  "try_finally m cleanup s = (case m s of (r, s') \<Rightarrow> (r, cleanup s'))"

definition swallow :: "('a, 's) async \<Rightarrow> (unit, 's) async" where
  "swallow m s = (Inr (), snd (m s))"


section \<open>JavaScript numbers\<close>

text \<open>
  A JavaScript number that is finite is kept as the rational it denotes.  The result of
  an arithmetic operation is the exact result rounded to the nearest IEEE 754 binary64
  value, ties to the even significand: \<open>double_of\<close>.  \<open>binade x\<close> is the exponent \<open>e\<close>
  with \<open>2 ^ e \<le> x < 2 ^ (e + 1)\<close> for a positive \<open>x\<close>; below \<open>2 ^ - 1022\<close> the spacing
  of the values stays \<open>2 ^ - 1074\<close>.  A result of magnitude \<open>2 ^ 1024\<close> or more stands
  for \<^verbatim>\<open>Infinity\<close>: \<open>finite_double\<close> tells the others.
\<close>

fun bit_length :: "nat \<Rightarrow> nat" where
  "bit_length n = (if n = 0 then 0 else Suc (bit_length (n div 2)))"

declare bit_length.simps [simp del]

definition pow2 :: "int \<Rightarrow> rat" where
  "pow2 e = (if 0 \<le> e then 2 ^ nat e else 1 / 2 ^ nat (- e))"

definition binade :: "rat \<Rightarrow> int" where
  "binade x =
     (if 1 \<le> x then int (bit_length (nat \<lfloor>x\<rfloor>)) - 1
      else - int (bit_length (nat (\<lceil>1 / x\<rceil> - 1))))"

definition round_half_even :: "rat \<Rightarrow> int" where
  "round_half_even x =
     (let f = \<lfloor>x\<rfloor>; d = x - of_int f
      in if d < 1 / 2 then f else if 1 / 2 < d then f + 1 else if even f then f else f + 1)"

definition double_of :: "rat \<Rightarrow> rat" where
  "double_of x =
     (if x = 0 then 0
      else let u = pow2 (max (binade \<bar>x\<bar>) (- 1022) - 52)
           in of_int (round_half_even (x / u)) * u)"

definition finite_double :: "rat \<Rightarrow> bool" where
  "finite_double x \<longleftrightarrow> \<bar>x\<bar> < 2 ^ 1024"

text \<open>
  \<^verbatim>\<open>Math.round(x)\<close> is the integer nearest to \<open>x\<close>, the upper one of two that are
  equally near; \<^verbatim>\<open>Math.ceil(x)\<close> is the least integer not below \<open>x\<close>.  Both are exact.
\<close>

definition Math_round :: "rat \<Rightarrow> int" where
  "Math_round x = \<lfloor>x + 1 / 2\<rfloor>"

definition Math_ceil :: "rat \<Rightarrow> int" where
  "Math_ceil x = \<lceil>x\<rceil>"

section \<open>Paths\<close>

text \<open>
  \<^verbatim>\<open>path.resolve\<close> and \<^verbatim>\<open>path.join\<close> of Node on a POSIX system, for the arguments the
  worker gives them.  A path is cut at its slashes; empty segments and \<^verbatim>\<open>.\<close> are
  dropped, \<^verbatim>\<open>..\<close> drops the segment before it, and the root has no segment before it.
  \<open>path_resolve cwd p\<close> is \<^verbatim>\<open>path.resolve(p)\<close> in a process whose working directory is
  the absolute path \<open>cwd\<close>; \<open>path_join dir file\<close> is \<^verbatim>\<open>path.join(dir, file)\<close> for an
  absolute \<open>dir\<close> and a \<open>file\<close> that is not empty and does not end in a slash.
\<close>

fun split_on :: "char \<Rightarrow> string \<Rightarrow> string list" where
  "split_on c [] = [[]]"
| "split_on c (x # xs) =
     (let ps = split_on c xs in if x = c then [] # ps else (x # hd ps) # tl ps)"

fun resolve_segments :: "string list \<Rightarrow> string list \<Rightarrow> string list" where
  "resolve_segments kept [] = rev kept"
| "resolve_segments kept (s # ss) =
     (if s = [] \<or> s = ''.'' then resolve_segments kept ss
      else if s = ''..'' then resolve_segments (tl kept) ss
      else resolve_segments (s # kept) ss)"

definition normalize_absolute :: "string \<Rightarrow> string" where
  "normalize_absolute p =
     (let segments = resolve_segments [] (split_on CHR ''/'' p)
      in if segments = [] then ''/'' else concat (map (\<lambda>s. CHR ''/'' # s) segments))"

definition path_resolve :: "string \<Rightarrow> string \<Rightarrow> string" where
  "path_resolve cwd p =
     normalize_absolute (if p \<noteq> [] \<and> hd p = CHR ''/'' then p else cwd @ ''/'' @ p)"

definition path_join :: "string \<Rightarrow> string \<Rightarrow> string" where
  "path_join dir file = normalize_absolute (dir @ ''/'' @ file)"

section \<open>The durable queue store and the billing ledger\<close>

text \<open>
  The tables \<^verbatim>\<open>render_jobs\<close> and \<^verbatim>\<open>users\<close>, with the columns the worker's SQL names.
  Of \<^verbatim>\<open>input_props\<close> only \<^verbatim>\<open>videoInfo.durationInFrames\<close> and \<^verbatim>\<open>videoInfo.fps\<close>
  are read by the worker.  A table is the list of its rows.
\<close>

datatype job_status = Queued | Rendering | Completed | Failed

record videoInfo =
  durationInFrames :: rat
  fps :: rat

record render_job =
  job_id :: string
  status :: job_status
  user_id :: int
  input_props :: videoInfo
  progress :: rat
  output_url :: "string option"
  error :: "string option"
  created_at :: int
  started_at :: "int option"
  completed_at :: "int option"

record user_row =
  usr_id :: int
  credits :: int
  updated_at :: int

record database =
  render_jobs :: "render_job list"
  users :: "user_row list"

subsection \<open>The SQL statements of the worker\<close>

text \<open>
  A statement, run on a table state, is rejected by the store with a message or gives
  a result and the next table state.
\<close>

type_synonym 'r statement = "database \<Rightarrow> string + 'r \<times> database"

text \<open>
  \<^verbatim>\<open>SELECT * FROM render_jobs WHERE status = 'queued' ORDER BY created_at ASC LIMIT 1
  FOR UPDATE SKIP LOCKED\<close>.  \<open>locked\<close> holds the ids of the rows on which other
  transactions hold a row lock when the statement runs: they are passed over, not
  waited for.  Rows of equal \<^verbatim>\<open>created_at\<close> keep their table order.
\<close>

definition oldest_unlocked :: "string list \<Rightarrow> database \<Rightarrow> render_job list" where
  "oldest_unlocked locked db =
     take 1 (sort_key created_at
       (filter (\<lambda>j. status j = Queued \<and> job_id j \<notin> set locked) (render_jobs db)))"

definition select_skip_locked :: "string list \<Rightarrow> render_job list statement" where
  "select_skip_locked locked db = Inr (oldest_unlocked locked db, db)"

text \<open>\<^verbatim>\<open>UPDATE render_jobs SET status = 'rendering', started_at = NOW() WHERE id = $1\<close>\<close>

definition set_rendering :: "string \<Rightarrow> int \<Rightarrow> database \<Rightarrow> database" where
  "set_rendering jobId now db =
     db\<lparr>render_jobs :=
        map (\<lambda>j. if job_id j = jobId then j\<lparr>status := Rendering, started_at := Some now\<rparr> else j)
          (render_jobs db)\<rparr>"

definition update_rendering :: "string \<Rightarrow> int \<Rightarrow> unit statement" where
  "update_rendering jobId now db = Inr ((), set_rendering jobId now db)"

text \<open>
  \<^verbatim>\<open>UPDATE render_jobs SET status = 'completed', output_url = $1, progress = 1,
  completed_at = NOW() WHERE id = $2\<close>
\<close>

definition set_completed :: "string \<Rightarrow> string \<Rightarrow> int \<Rightarrow> database \<Rightarrow> database" where
  "set_completed url jobId now db =
     db\<lparr>render_jobs :=
        map (\<lambda>j. if job_id j = jobId
                 then j\<lparr>status := Completed, output_url := Some url, progress := 1,
                        completed_at := Some now\<rparr>
                 else j)
          (render_jobs db)\<rparr>"

definition update_completed :: "string \<Rightarrow> string \<Rightarrow> int \<Rightarrow> unit statement" where
  "update_completed url jobId now db = Inr ((), set_completed url jobId now db)"

text \<open>
  Modelled from the spec: the declaration of the table \<^verbatim>\<open>users\<close> is not part of the
  sources; the specification gives the ledger a column \<^verbatim>\<open>credits\<close> that is an integer.
  An integer column of the store holds the values of 32 bits, and an operand or a result
  outside them makes the store reject the statement.
\<close>

definition int4 :: "int \<Rightarrow> bool" where
  "int4 i \<longleftrightarrow> - 2147483648 \<le> i \<and> i \<le> 2147483647"

text \<open>
  \<^verbatim>\<open>UPDATE users SET credits = GREATEST(credits - $1, 0), updated_at = NOW()
  WHERE id = $2\<close>.  The parameter \<^verbatim>\<open>$1\<close> is \<open>None\<close> for a number that is not finite,
  which the store cannot read as an integer; a finite one is an integer, for it comes
  from \<^verbatim>\<open>Math.ceil\<close>.  The messages stand for those of the store.
\<close>

definition debit :: "int \<Rightarrow> int \<Rightarrow> int \<Rightarrow> database \<Rightarrow> database" where
  "debit amount userId now db =
     db\<lparr>users :=
        map (\<lambda>u. if usr_id u = userId
                 then u\<lparr>credits := max (credits u - amount) 0, updated_at := now\<rparr>
                 else u)
          (users db)\<rparr>"

definition debit_accepted :: "int option \<Rightarrow> int \<Rightarrow> database \<Rightarrow> bool" where
  "debit_accepted creditsToDeduct userId db \<longleftrightarrow>
     (case creditsToDeduct of
        None \<Rightarrow> False
      | Some amount \<Rightarrow>
          int4 amount \<and> (\<forall>u\<in>set (users db). usr_id u = userId \<longrightarrow> int4 (credits u - amount)))"

definition update_credits :: "int option \<Rightarrow> int \<Rightarrow> int \<Rightarrow> unit statement" where
  "update_credits creditsToDeduct userId now db =
     (case creditsToDeduct of
        None \<Rightarrow> Inl ''invalid input syntax for type integer''
      | Some amount \<Rightarrow>
          if \<not> int4 amount then Inl ''value out of range for type integer''
          else if \<exists>u\<in>set (users db). usr_id u = userId \<and> \<not> int4 (credits u - amount)
          then Inl ''integer out of range''
          else Inr ((), debit amount userId now db))"

text \<open>\<^verbatim>\<open>UPDATE render_jobs SET status = 'failed', error = $1 WHERE id = $2\<close>\<close>

definition set_failed :: "string \<Rightarrow> string \<Rightarrow> database \<Rightarrow> database" where
  "set_failed message jobId db =
     db\<lparr>render_jobs :=
        map (\<lambda>j. if job_id j = jobId then j\<lparr>status := Failed, error := Some message\<rparr> else j)
          (render_jobs db)\<rparr>"

definition update_failed :: "string \<Rightarrow> string \<Rightarrow> unit statement" where
  "update_failed message jobId db = Inr ((), set_failed message jobId db)"

text \<open>\<^verbatim>\<open>UPDATE render_jobs SET progress = $1 WHERE id = $2\<close>\<close>

definition set_progress :: "rat \<Rightarrow> string \<Rightarrow> database \<Rightarrow> database" where
  "set_progress fraction jobId db =
     db\<lparr>render_jobs :=
        map (\<lambda>j. if job_id j = jobId then j\<lparr>progress := fraction\<rparr> else j) (render_jobs db)\<rparr>"

definition update_progress :: "rat \<Rightarrow> string \<Rightarrow> unit statement" where
  "update_progress fraction jobId db = Inr ((), set_progress fraction jobId db)"

text \<open>\<^verbatim>\<open>SET statement_timeout = 5000\<close> changes no table.\<close>

definition set_statement_timeout :: "unit statement" where
  "set_statement_timeout db = Inr ((), db)"

subsection \<open>The connection pool and its clients\<close>

text \<open>
  What a worker process sees of the store: \<open>store\<close> is the committed database; \<open>txn\<close>
  is the transaction block of the session of the pooled client (\<open>None\<close>: no block is
  open and a statement commits on its own; \<open>Open d\<close>: a block is open and \<open>d\<close> is what
  its statements see and have written; \<open>Aborted\<close>: a statement of the block has
  failed, and the store refuses every command but \<^verbatim>\<open>COMMIT\<close> and \<^verbatim>\<open>ROLLBACK\<close>, both of
  which end the block without writing); \<open>faults\<close> tells, for each coming round trip to
  the store, whether it fails and with which message (past the end of the list every
  round trip succeeds); \<open>console\<close> holds the lines written with \<^verbatim>\<open>console.error\<close>.

  A round trip that fails changes nothing in the committed store, and a block in which
  a round trip or a statement has failed never commits.  \<^verbatim>\<open>client.release()\<close> gives the
  client back to the pool as it is: a block that is open stays open, and the next
  \<^verbatim>\<open>pool.connect()\<close> hands the same session out again.
\<close>

datatype transaction = Open database | Aborted

record world =
  store :: database
  txn :: "transaction option"
  faults :: "string option list"
  console :: "string list"

definition round_trip :: "(unit, world) async" where
  "round_trip w =
     (case faults w of
        [] \<Rightarrow> (Inr (), w)
      | None # fs \<Rightarrow> (Inr (), w\<lparr>faults := fs\<rparr>)
      | Some e # fs \<Rightarrow> (Inl e, w\<lparr>faults := fs\<rparr>))"

text \<open>An error inside a transaction block aborts the block.\<close>

definition abort_block :: "world \<Rightarrow> world" where
  "abort_block w = (case txn w of None \<Rightarrow> w | Some t \<Rightarrow> w\<lparr>txn := Some Aborted\<rparr>)"

definition aborted_message :: string where
  "aborted_message = ''current transaction is aborted, commands ignored until end of transaction block''"

text \<open>\<^verbatim>\<open>pool.connect()\<close>, \<^verbatim>\<open>client.release()\<close> and \<^verbatim>\<open>client.query(...)\<close>.\<close>

definition pool_connect :: "(unit, world) async" where
  "pool_connect = round_trip"

definition release :: "world \<Rightarrow> world" where
  "release w = w"

definition client_query :: "'r statement \<Rightarrow> ('r, world) async" where
  "client_query stmt w =
     (case round_trip w of
        (Inl e, w') \<Rightarrow> (Inl e, abort_block w')
      | (Inr _, w') \<Rightarrow>
          (case txn w' of
             None \<Rightarrow>
               (case stmt (store w') of
                  Inl e \<Rightarrow> (Inl e, w')
                | Inr (r, d) \<Rightarrow> (Inr r, w'\<lparr>store := d\<rparr>))
           | Some (Open d) \<Rightarrow>
               (case stmt d of
                  Inl e \<Rightarrow> (Inl e, w'\<lparr>txn := Some Aborted\<rparr>)
                | Inr (r, d') \<Rightarrow> (Inr r, w'\<lparr>txn := Some (Open d')\<rparr>))
           | Some Aborted \<Rightarrow> (Inl aborted_message, w')))"

text \<open>
  \<^verbatim>\<open>BEGIN\<close> inside an open block only draws a warning; \<^verbatim>\<open>COMMIT\<close> outside a block
  also; \<^verbatim>\<open>COMMIT\<close> of an aborted block rolls it back.
\<close>

definition sql_begin :: "(unit, world) async" where
  "sql_begin w =
     (case round_trip w of
        (Inl e, w') \<Rightarrow> (Inl e, abort_block w')
      | (Inr _, w') \<Rightarrow>
          (case txn w' of
             None \<Rightarrow> (Inr (), w'\<lparr>txn := Some (Open (store w'))\<rparr>)
           | Some (Open d) \<Rightarrow> (Inr (), w')
           | Some Aborted \<Rightarrow> (Inl aborted_message, w')))"

definition sql_commit :: "(unit, world) async" where
  "sql_commit w =
     (case round_trip w of
        (Inl e, w') \<Rightarrow> (Inl e, abort_block w')
      | (Inr _, w') \<Rightarrow>
          (case txn w' of
             None \<Rightarrow> (Inr (), w')
           | Some (Open d) \<Rightarrow> (Inr (), w'\<lparr>store := d, txn := None\<rparr>)
           | Some Aborted \<Rightarrow> (Inr (), w'\<lparr>txn := None\<rparr>)))"

definition sql_rollback :: "(unit, world) async" where
  "sql_rollback w =
     (case round_trip w of
        (Inl e, w') \<Rightarrow> (Inl e, abort_block w')
      | (Inr _, w') \<Rightarrow> (Inr (), w'\<lparr>txn := None\<rparr>))"

text \<open>A call of \<open>withRetry\<close> whose trace is not looked at.\<close>

definition retrying :: "('a, 's) async \<Rightarrow> string \<Rightarrow> ('a, 's) async" where
  "retrying operation ctx s = (case withRetry operation ctx None s of (r, s', tr) \<Rightarrow> (r, s'))"

definition getClient :: "(unit, world) async" where
  "getClient = retrying pool_connect ''Database connection''"

definition safeQuery :: "'r statement \<Rightarrow> ('r, world) async" where
  "safeQuery stmt =
     retrying (await getClient (\<lambda>_. try_finally (client_query stmt) release)) ''Database query''"

section \<open>Claiming the next job\<close>

text \<open>
  \<open>getNextJob\<close> of the durable worker.  \<open>locked\<close> holds the ids of the rows locked by
  other transactions when the \<^verbatim>\<open>SELECT\<close> runs; \<open>now\<close> is what \<^verbatim>\<open>NOW()\<close> returns in
  the transaction, the time of its start.  The function resolves to \<open>None\<close> for
  \<^verbatim>\<open>null\<close>.
\<close>

definition getNextJob :: "string list \<Rightarrow> int \<Rightarrow> (render_job option, world) async" where
  "getNextJob locked now =
     await getClient (\<lambda>_.
       try_finally
         (try_catch
            (await (client_query set_statement_timeout) (\<lambda>_.
             await sql_begin (\<lambda>_.
             await (client_query (select_skip_locked locked)) (\<lambda>rows.
               case rows of
                 [] \<Rightarrow> await sql_rollback (\<lambda>_. resolve None)
               | job # _ \<Rightarrow>
                   await (client_query (update_rendering (job_id job) now)) (\<lambda>_.
                   await sql_commit (\<lambda>_. resolve (Some job)))))))
            (\<lambda>err. await (swallow sql_rollback) (\<lambda>_. reject err)))
         release)"

section \<open>Completing and failing a job\<close>

text \<open>
  \<open>completeJob\<close>: both updates run between \<^verbatim>\<open>BEGIN\<close> and \<^verbatim>\<open>COMMIT\<close> on one client.
  \<open>creditsToDeduct\<close> is \<open>None\<close> for a number that is not finite.
\<close>

definition completeJob ::
  "string \<Rightarrow> string \<Rightarrow> int \<Rightarrow> int option \<Rightarrow> int \<Rightarrow> (unit, world) async" where
  "completeJob jobId url userId creditsToDeduct now =
     await getClient (\<lambda>_.
       try_finally
         (try_catch
            (await sql_begin (\<lambda>_.
             await (client_query (update_completed url jobId now)) (\<lambda>_.
             await (client_query (update_credits creditsToDeduct userId now)) (\<lambda>_.
             await sql_commit (\<lambda>_. resolve ())))))
            (\<lambda>err. await (swallow sql_rollback) (\<lambda>_. reject err)))
         release)"

text \<open>
  \<open>failJob\<close>: the message is cut to its first 1000 characters; when the write fails
  after all retries the error is logged and not rethrown.
\<close>

definition failJob :: "string \<Rightarrow> string \<Rightarrow> world \<Rightarrow> world" where
  "failJob jobId errorMessage w =
     (case safeQuery (update_failed (take 1000 errorMessage) jobId) w of
        (Inr _, w') \<Rightarrow> w'
      | (Inl err, w') \<Rightarrow>
          w'\<lparr>console := console w' @ [''CRITICAL: Failed to mark job '' @ jobId @ '' as failed: '' @ err]\<rparr>)"

section \<open>Rendering, uploading and the job pipeline\<close>

text \<open>
  What surrounds the processing of one job.  \<open>cwd\<close> and \<open>TEMP_RENDER_DIR\<close> are the
  working directory of the process, an absolute path, and the environment variable of
  that name.  The other fields tell what the external collaborators do: whether
  \<^verbatim>\<open>selectComposition\<close> rejects, the \<^verbatim>\<open>onProgress\<close> callbacks of \<^verbatim>\<open>renderMedia\<close>
  (each with the value of \<^verbatim>\<open>Date.now()\<close> at the callback and the reported fraction),
  whether \<^verbatim>\<open>renderMedia\<close> rejects after them, and whether the upload rejects.
\<close>

record render_run =
  cwd :: string
  TEMP_RENDER_DIR :: "string option"
  composition_error :: "string option"
  progress_calls :: "(int \<times> rat) list"
  render_error :: "string option"
  upload_error :: "string option"

text \<open>
  \<^verbatim>\<open>const TEMP_DIR = path.resolve(process.env.TEMP_RENDER_DIR || "renders")\<close>: a
  variable that is unset or empty gives way to the default.
\<close>

definition TEMP_DIR :: "render_run \<Rightarrow> string" where
  "TEMP_DIR run =
     path_resolve (cwd run)
       (case TEMP_RENDER_DIR run of
          None \<Rightarrow> ''renders''
        | Some dir \<Rightarrow> if dir = [] then ''renders'' else dir)"

text \<open>The two variables \<open>renderJob\<close> keeps between progress callbacks.\<close>

record throttle =
  lastProgressUpdate :: int
  lastProgressValue :: rat

text \<open>\<^verbatim>\<open>Math.round(progress * 100) / 100\<close>, a product and a quotient of doubles.\<close>

definition progressRounded :: "rat \<Rightarrow> rat" where
  "progressRounded fraction =
     double_of (of_int (Math_round (double_of (fraction * 100))) / 100)"

text \<open>
  One \<^verbatim>\<open>onProgress\<close> callback.  The second component lists the writes handed to
  \<open>safeQuery\<close> so far, each with the time of its callback and the value to write.  The
  callback does not wait for the write: it only starts it, and returns.
\<close>

definition onProgress ::
  "int \<times> rat \<Rightarrow> throttle \<times> (int \<times> rat) list \<Rightarrow> throttle \<times> (int \<times> rat) list" where
  "onProgress call acc =
     (case call of (now, fraction) \<Rightarrow>
      case acc of (th, issued) \<Rightarrow>
        if now - lastProgressUpdate th > PROGRESS_UPDATE_INTERVAL_MS
           \<and> progressRounded fraction \<noteq> lastProgressValue th
        then
          (\<lparr>lastProgressUpdate = now, lastProgressValue = progressRounded fraction\<rparr>,
           issued @ [(now, progressRounded fraction)])
        else (th, issued))"

text \<open>
  A write that a callback has started:
  \<^verbatim>\<open>safeQuery(...).catch(err => { console.error(...) })\<close>.  It runs detached from
  \<open>renderJob\<close>, on a client of its own, at some time after its callback; it ends in a
  state of the world and never in an error.
\<close>

definition progress_failure_line :: "string \<Rightarrow> string \<Rightarrow> string" where
  "progress_failure_line jobId err = ''Failed to update progress for job '' @ jobId @ '': '' @ err"

definition progress_write :: "string \<Rightarrow> rat \<Rightarrow> world \<Rightarrow> world" where
  "progress_write jobId fraction w =
     (case safeQuery (update_progress fraction jobId) w of
        (Inr _, w') \<Rightarrow> w'
      | (Inl err, w') \<Rightarrow> w'\<lparr>console := console w' @ [progress_failure_line jobId err]\<rparr>)"

text \<open>
  \<open>renderJob\<close> resolves to the path of the rendered file or rejects; with its result
  comes the list of the writes its callbacks have started.
\<close>

definition renderJob :: "render_job \<Rightarrow> render_run \<Rightarrow> (string + string) \<times> (int \<times> rat) list" where
  "renderJob job run =
     (case composition_error run of
        Some err \<Rightarrow> (Inl err, [])
      | None \<Rightarrow>
          (case foldl (\<lambda>acc call. onProgress call acc)
                  (\<lparr>lastProgressUpdate = 0, lastProgressValue = 0\<rparr>, [])
                  (progress_calls run) of
             (th, issued) \<Rightarrow>
               (case render_error run of
                  Some err \<Rightarrow> (Inl err, issued)
                | None \<Rightarrow> (Inr (path_join (TEMP_DIR run) (job_id job @ ''.mp4'')), issued))))"

text \<open>\<open>uploadToStorage\<close> returns the object key.\<close>

definition uploadToStorage :: "render_run \<Rightarrow> string \<Rightarrow> string \<Rightarrow> (string, world) async" where
  "uploadToStorage run localFile jobId =
     (case upload_error run of
        Some err \<Rightarrow> reject err
      | None \<Rightarrow> resolve (''renders/'' @ jobId @ ''.mp4''))"

text \<open>
  \<^verbatim>\<open>Math.ceil(durationInFrames / fps / 60 * 2)\<close>, two quotients and a product of
  doubles.  The result is not finite (\<open>None\<close>) with a zero frame rate and when a
  quotient or the product is too large for a double.
\<close>

definition creditsToDeduct_of :: "videoInfo \<Rightarrow> int option" where
  "creditsToDeduct_of info =
     (if fps info = 0 then None
      else let perSecond = double_of (durationInFrames info / fps info)
           in if \<not> finite_double perSecond then None
              else let durationInMinutes = double_of (perSecond / 60);
                       doubled = double_of (durationInMinutes * 2)
                   in if \<not> finite_double doubled then None else Some (Math_ceil doubled))"

text \<open>\<open>cleanupFile\<close> unlinks the local file and touches neither the store nor the error log.\<close>

definition cleanupFile :: "string \<Rightarrow> world \<Rightarrow> world" where
  "cleanupFile filePath w = w"

text \<open>
  \<open>processJob\<close>, in the world of its own statements.  The progress writes that
  \<open>renderJob\<close> has started run detached from it (\<open>progress_write\<close>) and are not part of
  the state it returns.
\<close>

definition processJob :: "render_job \<Rightarrow> render_run \<Rightarrow> int \<Rightarrow> world \<Rightarrow> world" where
  "processJob job run now w =
     (case renderJob job run of
        (Inl err, issued) \<Rightarrow>
          failJob (job_id job) err (w\<lparr>console := console w @ [''Failed '' @ job_id job]\<rparr>)
      | (Inr outputFile, issued) \<Rightarrow>
          cleanupFile outputFile
            (case await (uploadToStorage run outputFile (job_id job)) (\<lambda>url.
                    completeJob (job_id job) url (user_id job)
                      (creditsToDeduct_of (input_props job)) now) w of
               (Inr _, w2) \<Rightarrow> w2
             | (Inl err, w2) \<Rightarrow>
                 failJob (job_id job) err (w2\<lparr>console := console w2 @ [''Failed '' @ job_id job]\<rparr>)))"

text \<open>
  The throttle as the specification words it, for a list of writes in the order they are
  issued: each write comes more than \<open>PROGRESS_UPDATE_INTERVAL_MS\<close> after the one
  before it and carries a different value.  The first write is compared with the
  initial values of the two variables.
\<close>

fun throttled :: "int \<Rightarrow> rat \<Rightarrow> (int \<times> rat) list \<Rightarrow> bool" where
  "throttled lastTime lastValue [] = True"
| "throttled lastTime lastValue ((t, v) # ws) =
     (PROGRESS_UPDATE_INTERVAL_MS < t - lastTime \<and> v \<noteq> lastValue \<and> throttled t v ws)"

section \<open>The in-memory render queue\<close>

text \<open>
  \<open>makeRenderQueue\<close> of the single-process server.  \<open>'d\<close> is the type of \<open>JobData\<close>,
  which the queue only passes on.  The \<open>cancel\<close> closure kept in a job state is one of
  two: the closure \<open>queueRender\<close> creates, which deletes the job from the registry, and
  the \<open>cancel\<close> function of the cancel signal that \<open>processRender\<close> creates for its
  render.
\<close>

datatype cancel_handle = Delete_job string | Cancel_signal

datatype 'd JobState =
    JobQueued 'd cancel_handle
  | JobInProgress rat 'd cancel_handle
  | JobCompleted string 'd
  | JobFailed string 'd

fun data_of :: "'d JobState \<Rightarrow> 'd" where
  "data_of (JobQueued d c) = d"
| "data_of (JobInProgress p d c) = d"
| "data_of (JobCompleted u d) = d"
| "data_of (JobFailed e d) = d"

text \<open>
  The state of the queue.  \<open>jobs\<close> is the registry.  The promise chain \<open>queue\<close> is
  kept as the callbacks chained on it that have not run yet (\<open>pending\<close>, one job id
  each, in the order of the \<open>then\<close> calls), the call of \<open>processRender\<close> that is
  awaiting its render, with the job data it captured (\<open>running\<close>), and the error the
  chain has rejected with (\<open>chain_error\<close>); a callback chained on a rejected promise
  never runs.  \<open>signalled\<close> tells whether \<open>cancel\<close> of the running render's signal
  has been called.  \<open>started\<close> lists the job ids \<open>processRender\<close> has been called
  with, in order.  This is the state of the queue as long as the process lives; what a
  rejected chain does to the process is told by \<open>server_step\<close> below.
\<close>

record 'd render_queue =
  jobs :: "string \<rightharpoonup> 'd JobState"
  pending :: "string list"
  running :: "(string \<times> 'd) option"
  chain_error :: "string option"
  signalled :: bool
  started :: "string list"

definition makeRenderQueue :: "'d render_queue" where
  "makeRenderQueue =
     \<lparr>jobs = Map.empty, pending = [], running = None, chain_error = None, signalled = False,
      started = []\<rparr>"

text \<open>
  \<open>processRender\<close> up to its first \<^verbatim>\<open>await\<close>: it throws when the job is not in the
  registry, and otherwise makes a cancel signal and sets the job in progress.
\<close>

definition not_found_message :: "string \<Rightarrow> string" where
  "not_found_message jobId = ''Render job '' @ jobId @ '' not found''"

definition processRender_begin :: "string \<Rightarrow> 'd render_queue \<Rightarrow> 'd render_queue" where
  "processRender_begin jobId q =
     (case jobs q jobId of
        None \<Rightarrow>
          q\<lparr>chain_error := Some (not_found_message jobId),
            started := started q @ [jobId]\<rparr>
      | Some job \<Rightarrow>
          q\<lparr>jobs := (jobs q)(jobId \<mapsto> JobInProgress 0 (data_of job) Cancel_signal),
            running := Some (jobId, data_of job), signalled := False,
            started := started q @ [jobId]\<rparr>)"

text \<open>
  The reaction of the chain: when no render is awaited and the chain has not rejected,
  the next chained callback calls \<open>processRender\<close>.  It runs as a microtask, before any
  other request or adapter callback is handled.
\<close>

definition chain_next :: "'d render_queue \<Rightarrow> 'd render_queue" where
  "chain_next q =
     (if running q = None \<and> chain_error q = None
      then (case pending q of
              [] \<Rightarrow> q
            | jobId # rest \<Rightarrow> processRender_begin jobId (q\<lparr>pending := rest\<rparr>))
      else q)"

definition queueRender :: "string \<Rightarrow> 'd \<Rightarrow> 'd render_queue \<Rightarrow> 'd render_queue" where
  "queueRender jobId d q =
     chain_next (q\<lparr>jobs := (jobs q)(jobId \<mapsto> JobQueued d (Delete_job jobId)),
                   pending := pending q @ [jobId]\<rparr>)"

text \<open>\<open>createJob\<close>, given the identifier \<^verbatim>\<open>randomUUID()\<close> returns.\<close>

definition createJob :: "string \<Rightarrow> 'd \<Rightarrow> 'd render_queue \<Rightarrow> string \<times> 'd render_queue" where
  "createJob uuid d q = (uuid, queueRender uuid d q)"

text \<open>
  The rest of \<open>processRender\<close>: the \<^verbatim>\<open>onProgress\<close> callback, the code after
  \<^verbatim>\<open>renderMedia\<close> resolves and the \<^verbatim>\<open>catch\<close> block that runs when
  \<^verbatim>\<open>selectComposition\<close> or \<^verbatim>\<open>renderMedia\<close> rejects.  After either of the last two the
  promise of \<open>processRender\<close> resolves and the chain reacts.
\<close>

definition render_progress :: "rat \<Rightarrow> 'd render_queue \<Rightarrow> 'd render_queue" where
  "render_progress p q =
     (case running q of
        None \<Rightarrow> q
      | Some (jobId, d) \<Rightarrow> q\<lparr>jobs := (jobs q)(jobId \<mapsto> JobInProgress p d Cancel_signal)\<rparr>)"

definition render_resolved :: "int \<Rightarrow> 'd render_queue \<Rightarrow> 'd render_queue" where
  "render_resolved port q =
     (case running q of
        None \<Rightarrow> q
      | Some (jobId, d) \<Rightarrow>
          chain_next
            (q\<lparr>jobs := (jobs q)(jobId \<mapsto>
                   JobCompleted (''http://localhost:'' @ js_number port @ ''/renders/'' @ jobId @ ''.mp4'') d),
               running := None\<rparr>))"

definition render_rejected :: "string \<Rightarrow> 'd render_queue \<Rightarrow> 'd render_queue" where
  "render_rejected err q =
     (case running q of
        None \<Rightarrow> q
      | Some (jobId, d) \<Rightarrow>
          chain_next (q\<lparr>jobs := (jobs q)(jobId \<mapsto> JobFailed err d), running := None\<rparr>))"

text \<open>Calling the \<open>cancel\<close> closure of a job state.\<close>

fun call_cancel :: "cancel_handle \<Rightarrow> 'd render_queue \<Rightarrow> 'd render_queue" where
  "call_cancel (Delete_job jobId) q = q\<lparr>jobs := (jobs q)(jobId := None)\<rparr>"
| "call_cancel Cancel_signal q = q\<lparr>signalled := True\<rparr>"

text \<open>
  The handlers of \<^verbatim>\<open>GET /renders/:jobId\<close> and \<^verbatim>\<open>DELETE /renders/:jobId\<close>, with the
  responses they send.
\<close>

datatype 'd response =
    Job_json "'d JobState"
  | Job_not_found
  | Job_not_cancellable
  | Job_cancelled

definition get_render :: "string \<Rightarrow> 'd render_queue \<Rightarrow> 'd response" where
  "get_render jobId q = (case jobs q jobId of None \<Rightarrow> Job_not_found | Some job \<Rightarrow> Job_json job)"

definition delete_render :: "string \<Rightarrow> 'd render_queue \<Rightarrow> 'd response \<times> 'd render_queue" where
  "delete_render jobId q =
     (case jobs q jobId of
        None \<Rightarrow> (Job_not_found, q)
      | Some (JobQueued d c) \<Rightarrow> (Job_cancelled, call_cancel c q)
      | Some (JobInProgress p d c) \<Rightarrow> (Job_cancelled, call_cancel c q)
      | Some (JobCompleted u d) \<Rightarrow> (Job_not_cancellable, q)
      | Some (JobFailed e d) \<Rightarrow> (Job_not_cancellable, q))"

text \<open>
  What the code of the queue does, one event at a time: a job is created, a cancel
  request arrives, the adapter reports progress, the render resolves, the render
  rejects.
\<close>

datatype 'd queue_event =
    Create string 'd
  | Cancel string
  | Progress rat
  | Resolve
  | Reject string

fun queue_step :: "int \<Rightarrow> 'd render_queue \<Rightarrow> 'd queue_event \<Rightarrow> 'd render_queue" where
  "queue_step port q (Create uuid d) = snd (createJob uuid d q)"
| "queue_step port q (Cancel jobId) = snd (delete_render jobId q)"
| "queue_step port q (Progress p) = render_progress p q"
| "queue_step port q Resolve = render_resolved port q"
| "queue_step port q (Reject err) = render_rejected err q"

definition queue_run :: "int \<Rightarrow> 'd queue_event list \<Rightarrow> 'd render_queue \<Rightarrow> 'd render_queue" where
  "queue_run port es q = foldl (queue_step port) q es"

fun created_ids :: "'d queue_event list \<Rightarrow> string list" where
  "created_ids [] = []"
| "created_ids (Create uuid d # es) = uuid # created_ids es"
| "created_ids (e # es) = created_ids es"

fun is_queued :: "'d JobState option \<Rightarrow> bool" where
  "is_queued (Some (JobQueued d c)) = True"
| "is_queued _ = False"

fun is_in_progress :: "'d JobState option \<Rightarrow> bool" where
  "is_in_progress (Some (JobInProgress p d c)) = True"
| "is_in_progress _ = False"

text \<open>
  What holds of the queue after any sequence of events in which every created job has
  an identifier of its own: job identifiers are not repeated along the chain, every
  registered job was created, a queued job carries the closure that deletes it and its
  callback is still pending, a job in progress carries the cancel function of the signal
  and is the one render awaited, a rejected chain awaits no render, and the chain is
  not idle while callbacks are pending.
\<close>

definition registry_inv :: "'d render_queue \<Rightarrow> bool" where
  "registry_inv q \<longleftrightarrow>
     distinct (started q @ pending q) \<and>
     (\<forall>jobId. jobs q jobId \<noteq> None \<longrightarrow> jobId \<in> set (started q @ pending q)) \<and>
     (\<forall>jobId d c. jobs q jobId = Some (JobQueued d c) \<longrightarrow>
        c = Delete_job jobId \<and> jobId \<in> set (pending q)) \<and>
     (\<forall>jobId p d c. jobs q jobId = Some (JobInProgress p d c) \<longrightarrow>
        c = Cancel_signal \<and> running q = Some (jobId, d)) \<and>
     (\<forall>jobId d. running q = Some (jobId, d) \<longrightarrow>
        is_in_progress (jobs q jobId) \<and> jobId \<in> set (started q)) \<and>
     (chain_error q \<noteq> None \<longrightarrow> running q = None)"

definition queue_inv :: "'d render_queue \<Rightarrow> bool" where
  "queue_inv q \<longleftrightarrow>
     registry_inv q \<and> (running q = None \<and> chain_error q = None \<longrightarrow> pending q = [])"


section \<open>The server process around the in-memory queue\<close>

text \<open>
  Nothing handles a rejection of the chain \<open>queue\<close>: no callback chained on it takes an
  error, and the server installs no listener for \<^verbatim>\<open>unhandledRejection\<close>.  What a
  rejected chain does to the process is the choice of the runtime.  By default (Node 15
  and later) the rejection is raised as an uncaught exception and the process exits with
  code 1; started with \<^verbatim>\<open>--unhandled-rejections=warn\<close>, or on an older Node, the process
  prints a warning and goes on.  A process that has exited serves no request and hears
  of no render.
\<close>

datatype rejection_mode = Throw_unhandled | Warn_unhandled

text \<open>
  The server process is serving, with the state of its queue, or has exited with a
  code; the registry lives in the memory of the process and is gone with it.
\<close>

datatype 'd server = Serving "'d render_queue" | Exited int

definition server_started :: "'d server" where
  "server_started = Serving makeRenderQueue"

fun server_step :: "rejection_mode \<Rightarrow> int \<Rightarrow> 'd server \<Rightarrow> 'd queue_event \<Rightarrow> 'd server" where
  "server_step mode port (Exited code) e = Exited code"
| "server_step mode port (Serving q) e =
     (if mode = Throw_unhandled \<and> chain_error (queue_step port q e) \<noteq> None then Exited 1
      else Serving (queue_step port q e))"

definition server_run ::
  "rejection_mode \<Rightarrow> int \<Rightarrow> 'd queue_event list \<Rightarrow> 'd server \<Rightarrow> 'd server" where
  "server_run mode port es s = foldl (server_step mode port) s es"

section \<open>The worker loop and the shutdown coordinator\<close>

text \<open>
  The worker process between two of its suspension points.  \<open>workerLoop\<close> is suspended
  in one of its three sleeps or in \<^verbatim>\<open>await getNextJob()\<close>, or has left its loop.  Every
  call of \<open>shutdown\<close> (one per signal, or per uncaught error that is not a connection
  error) has a task of its own: its \<open>gracefulShutdown\<close> is suspended in
  \<^verbatim>\<open>sleep(1000)\<close> or in \<^verbatim>\<open>await pool.end()\<close>, and its \<open>forceExit\<close> timer is due 30000 ms
  after the call.  \<open>claims\<close> counts the calls of \<open>getNextJob\<close> made so far.
  \<open>exit_code\<close> is the argument of \<^verbatim>\<open>process.exit\<close> once it was called; nothing runs
  after that.  The lengths of the sleeps are not modelled: a sleep may end at any time.
\<close>

datatype loop_state = Loop_sleeping | Loop_claiming | Loop_ended

datatype graceful_state = Waiting_renders | Closing_pool

record shutdown_task =
  graceful :: graceful_state
  force_at :: int

record process =
  shuttingDown :: bool
  activeRenders :: int
  loop :: loop_state
  claims :: nat
  tasks :: "shutdown_task list"
  pool_closed :: bool
  exit_code :: "int option"
  clock :: int

definition FORCE_EXIT_MS :: int where
  "FORCE_EXIT_MS = 30000"

text \<open>
  The head of \<^verbatim>\<open>while (!shuttingDown)\<close> up to the next \<^verbatim>\<open>await\<close>: the flag is tested,
  then the concurrency cap, then \<open>getNextJob\<close> is called, with no suspension point in
  between.
\<close>

definition loop_head :: "process \<Rightarrow> process" where
  "loop_head p =
     (if shuttingDown p then p\<lparr>loop := Loop_ended\<rparr>
      else if activeRenders p \<ge> int MAX_PARALLEL then p\<lparr>loop := Loop_sleeping\<rparr>
      else p\<lparr>loop := Loop_claiming, claims := claims p + 1\<rparr>)"

text \<open>The process when \<open>main\<close> has called \<open>workerLoop\<close>.\<close>

definition worker_started :: process where
  "worker_started =
     loop_head \<lparr>shuttingDown = False, activeRenders = 0, loop = Loop_sleeping, claims = 0,
                tasks = [], pool_closed = False, exit_code = None, clock = 0\<rparr>"

text \<open>
  \<^verbatim>\<open>while (activeRenders > 0) { await sleep(1000) }\<close> followed by \<^verbatim>\<open>await pool.end()\<close>:
  where \<open>gracefulShutdown\<close> suspends next.
\<close>

definition graceful_head :: "process \<Rightarrow> graceful_state" where
  "graceful_head p = (if activeRenders p > 0 then Waiting_renders else Closing_pool)"

text \<open>The time at which the first of the armed \<open>forceExit\<close> timers is due.\<close>

fun next_due :: "int list \<Rightarrow> int" where
  "next_due [] = 0"
| "next_due [d] = d"
| "next_due (d # ds) = min d (next_due ds)"

datatype claim_result = Claimed | No_job | Claim_failed

datatype process_event =
    Signal
  | Sleep_ends
  | Claim_returns claim_result
  | Job_finishes
  | Graceful_wakes nat
  | Pool_end_returns nat bool
  | Advance nat

text \<open>
  One event.  \<open>Signal\<close> is a call of \<open>shutdown\<close>: it sets the flag, arms the timer and
  runs \<open>gracefulShutdown\<close> to its first suspension.  \<open>Claim_returns\<close> resumes the loop
  after \<open>getNextJob\<close>: with a job it increments the counter, dispatches the job and goes
  round the loop at once; otherwise it sleeps.  \<open>Job_finishes\<close> is the \<^verbatim>\<open>finally\<close>
  handler of a dispatched job.  \<open>Pool_end_returns k ok\<close> resumes task \<open>k\<close> after
  \<^verbatim>\<open>pool.end()\<close> resolved (\<open>ok\<close>) or rejected: the rejection is caught and logged, and
  \<^verbatim>\<open>process.exit(0)\<close> follows in both cases.  \<open>Advance\<close> lets time pass.  Time does not
  pass beyond the moment a \<open>forceExit\<close> timer is due: the event loop runs the callback
  of the timer then, which logs and calls \<^verbatim>\<open>process.exit(1)\<close>.  No timer is ever
  cleared, for \<^verbatim>\<open>clearTimeout\<close> comes after \<^verbatim>\<open>process.exit(0)\<close>.
\<close>

fun process_step :: "process \<Rightarrow> process_event \<Rightarrow> process" where
  "process_step p Signal =
     (if exit_code p \<noteq> None then p
      else let p' = p\<lparr>shuttingDown := True\<rparr>
           in p'\<lparr>tasks := tasks p'
                  @ [\<lparr>graceful = graceful_head p', force_at = clock p' + FORCE_EXIT_MS\<rparr>]\<rparr>)"
| "process_step p Sleep_ends =
     (if exit_code p \<noteq> None \<or> loop p \<noteq> Loop_sleeping then p else loop_head p)"
| "process_step p (Claim_returns r) =
     (if exit_code p \<noteq> None \<or> loop p \<noteq> Loop_claiming then p
      else case r of
             Claimed \<Rightarrow> loop_head (p\<lparr>activeRenders := activeRenders p + 1\<rparr>)
           | No_job \<Rightarrow> p\<lparr>loop := Loop_sleeping\<rparr>
           | Claim_failed \<Rightarrow> p\<lparr>loop := Loop_sleeping\<rparr>)"
| "process_step p Job_finishes =
     (if exit_code p \<noteq> None \<or> activeRenders p \<le> 0 then p
      else p\<lparr>activeRenders := activeRenders p - 1\<rparr>)"
| "process_step p (Graceful_wakes k) =
     (if exit_code p \<noteq> None \<or> k \<ge> length (tasks p) \<or> graceful (tasks p ! k) \<noteq> Waiting_renders
      then p
      else p\<lparr>tasks := (tasks p)[k := (tasks p ! k)\<lparr>graceful := graceful_head p\<rparr>]\<rparr>)"
| "process_step p (Pool_end_returns k ok) =
     (if exit_code p \<noteq> None \<or> k \<ge> length (tasks p) \<or> graceful (tasks p ! k) \<noteq> Closing_pool
      then p
      else p\<lparr>pool_closed := (pool_closed p \<or> ok), exit_code := Some 0\<rparr>)"
| "process_step p (Advance ms) =
     (if exit_code p \<noteq> None then p
      else if tasks p \<noteq> [] \<and> next_due (map force_at (tasks p)) \<le> clock p + int ms
      then p\<lparr>clock := next_due (map force_at (tasks p)), exit_code := Some 1\<rparr>
      else p\<lparr>clock := clock p + int ms\<rparr>)"

definition process_run :: "process_event list \<Rightarrow> process \<Rightarrow> process" where
  "process_run es p = foldl process_step p es"

section \<open>Concurrent callers of \<open>getNextJob\<close>\<close>

text \<open>
  Several callers of \<open>getNextJob\<close>, each on a client of its own, against one table.
  The callers interleave round trip by round trip.  A caller is about to connect (in
  the given attempt of \<open>getClient\<close>), to set the statement timeout, to begin its
  transaction, to select (its transaction has started at the given time), to roll back
  after an empty result, to update the row it has locked, to commit, or to roll back in
  its \<^verbatim>\<open>catch\<close> block (with the error it will rethrow and the row its transaction has
  locked, if any); or it has returned, or thrown.  A caller whose \<^verbatim>\<open>ROLLBACK\<close> in the
  \<^verbatim>\<open>catch\<close> block has failed has thrown all the same, and its transaction keeps the
  lock it has.
\<close>

datatype claim_pc =
    Connecting int
  | Setting_timeout
  | Beginning
  | Selecting int
  | Rolling_back_empty
  | Row_locked render_job int
  | Row_updated render_job int
  | Recovering string "render_job option"
  | Claim_returned "render_job option"
  | Claim_threw string "render_job option"

text \<open>The row a caller's open transaction has locked.\<close>

fun held :: "claim_pc \<Rightarrow> string option" where
  "held (Row_locked job stamp) = Some (job_id job)"
| "held (Row_updated job stamp) = Some (job_id job)"
| "held (Recovering err lock) = map_option job_id lock"
| "held (Claim_threw err lock) = map_option job_id lock"
| "held _ = None"

text \<open>The row a caller has locked or was given as the result of its claim.\<close>

fun won :: "claim_pc \<Rightarrow> string option" where
  "won (Claim_returned r) = map_option job_id r"
| "won s = held s"

definition ids_of :: "(claim_pc \<Rightarrow> string option) \<Rightarrow> claim_pc list \<Rightarrow> string list" where
  "ids_of f ss = concat (map (\<lambda>s. case f s of None \<Rightarrow> [] | Some i \<Rightarrow> [i]) ss)"

text \<open>
  The next round trip of one caller: \<open>now\<close> is the time, \<open>fault\<close> the error of the
  round trip if it fails, \<open>locked\<close> the rows locked by open transactions and \<open>db\<close> the
  committed table.  The update of a transaction becomes visible when it commits, and a
  lock is given back when its transaction commits or rolls back.
\<close>

fun caller_statement ::
  "claim_pc \<Rightarrow> int \<Rightarrow> string option \<Rightarrow> string list \<Rightarrow> database \<Rightarrow> claim_pc \<times> database" where
  "caller_statement (Connecting attempt) now fault locked db =
     (case fault of
        None \<Rightarrow> (Setting_timeout, db)
      | Some err \<Rightarrow>
          if attempt < DB_RETRY_ATTEMPTS then (Connecting (attempt + 1), db)
          else (Claim_threw (exhausted_message ''Database connection'' DB_RETRY_ATTEMPTS (Some err))
                  None, db))"
| "caller_statement Setting_timeout now fault locked db =
     (case fault of None \<Rightarrow> (Beginning, db) | Some err \<Rightarrow> (Recovering err None, db))"
| "caller_statement Beginning now fault locked db =
     (case fault of None \<Rightarrow> (Selecting now, db) | Some err \<Rightarrow> (Recovering err None, db))"
| "caller_statement (Selecting stamp) now fault locked db =
     (case fault of
        None \<Rightarrow>
          (case oldest_unlocked locked db of
             [] \<Rightarrow> (Rolling_back_empty, db)
           | job # _ \<Rightarrow> (Row_locked job stamp, db))
      | Some err \<Rightarrow> (Recovering err None, db))"
| "caller_statement Rolling_back_empty now fault locked db =
     (case fault of None \<Rightarrow> (Claim_returned None, db) | Some err \<Rightarrow> (Recovering err None, db))"
| "caller_statement (Row_locked job stamp) now fault locked db =
     (case fault of
        None \<Rightarrow> (Row_updated job stamp, db)
      | Some err \<Rightarrow> (Recovering err (Some job), db))"
| "caller_statement (Row_updated job stamp) now fault locked db =
     (case fault of
        None \<Rightarrow> (Claim_returned (Some job), set_rendering (job_id job) stamp db)
      | Some err \<Rightarrow> (Recovering err (Some job), db))"
| "caller_statement (Recovering err lock) now fault locked db =
     (case fault of
        None \<Rightarrow> (Claim_threw err None, db)
      | Some err' \<Rightarrow> (Claim_threw err lock, db))"
| "caller_statement (Claim_returned r) now fault locked db = (Claim_returned r, db)"
| "caller_statement (Claim_threw err lock) now fault locked db = (Claim_threw err lock, db)"

record claim_world =
  committed :: database
  sessions :: "claim_pc list"

text \<open>A turn: the caller \<open>caller\<close> makes its next round trip at the time \<open>at_time\<close>.\<close>

record turn =
  caller :: nat
  at_time :: int
  failing :: "string option"

definition caller_step :: "claim_world \<Rightarrow> turn \<Rightarrow> claim_world" where
  "caller_step w t =
     (if caller t < length (sessions w)
      then let (s', db') = caller_statement (sessions w ! caller t) (at_time t) (failing t)
                             (ids_of held (sessions w)) (committed w)
           in \<lparr>committed = db', sessions = (sessions w)[caller t := s']\<rparr>
      else w)"

definition interleave :: "turn list \<Rightarrow> claim_world \<Rightarrow> claim_world" where
  "interleave schedule w = foldl caller_step w schedule"

definition callers_start :: "nat \<Rightarrow> database \<Rightarrow> claim_world" where
  "callers_start N db = \<lparr>committed = db, sessions = replicate N (Connecting 1)\<rparr>"

text \<open>The jobs that calls of \<open>getNextJob\<close> have returned.\<close>

definition claimed_jobs :: "claim_world \<Rightarrow> render_job list" where
  "claimed_jobs w =
     concat (map (\<lambda>s. case s of Claim_returned (Some job) \<Rightarrow> [job] | _ \<Rightarrow> []) (sessions w))"

text \<open>A caller that has returned or thrown, and one that has met no error.\<close>

fun finished :: "claim_pc \<Rightarrow> bool" where
  "finished (Claim_returned r) = True"
| "finished (Claim_threw err lock) = True"
| "finished _ = False"

fun unfailed :: "claim_pc \<Rightarrow> bool" where
  "unfailed (Recovering err lock) = False"
| "unfailed (Claim_threw err lock) = False"
| "unfailed (Connecting attempt) = (attempt = 1)"
| "unfailed _ = True"

fun found_nothing :: "claim_pc \<Rightarrow> bool" where
  "found_nothing Rolling_back_empty = True"
| "found_nothing (Claim_returned None) = True"
| "found_nothing _ = False"

text \<open>A bound on the round trips a caller has still to make.\<close>

fun statements_left :: "claim_pc \<Rightarrow> nat" where
  "statements_left (Connecting attempt) = 7 + nat (DB_RETRY_ATTEMPTS - attempt)"
| "statements_left Setting_timeout = 6"
| "statements_left Beginning = 5"
| "statements_left (Selecting stamp) = 4"
| "statements_left (Row_locked job stamp) = 3"
| "statements_left (Row_updated job stamp) = 2"
| "statements_left Rolling_back_empty = 2"
| "statements_left (Recovering err lock) = 1"
| "statements_left (Claim_returned r) = 0"
| "statements_left (Claim_threw err lock) = 0"

text \<open>
  One caller on its own: it makes up to \<open>n\<close> round trips one after the other, at the
  time \<open>now\<close>, while other transactions hold the locks \<open>locked\<close>; \<open>fs\<close> tells which
  of the coming round trips fail.
\<close>

fun caller_run ::
  "nat \<Rightarrow> claim_pc \<Rightarrow> int \<Rightarrow> string option list \<Rightarrow> string list \<Rightarrow> database
     \<Rightarrow> claim_pc \<times> database" where
  "caller_run 0 pc now fs locked db = (pc, db)"
| "caller_run (Suc n) pc now fs locked db =
     (case caller_statement pc now (case fs of [] \<Rightarrow> None | f # _ \<Rightarrow> f) locked db of
        (pc', db') \<Rightarrow> caller_run n pc' now (tl fs) locked db')"

definition queued_ids :: "database \<Rightarrow> string set" where
  "queued_ids db = job_id ` {j \<in> set (render_jobs db). status j = Queued}"

text \<open>
  What holds between the round trips of concurrent callers, \<open>Q\<close> being the ids of the
  rows queued at the start: no row is locked or claimed twice; a locked row is still
  queued in the committed table; every row locked or claimed was queued at the start;
  a row that is no longer queued has been claimed; and a row that was claimed and is
  still queued is still locked.
\<close>

definition claims_inv :: "string set \<Rightarrow> claim_world \<Rightarrow> bool" where
  "claims_inv Q w \<longleftrightarrow>
     distinct (ids_of won (sessions w)) \<and>
     set (ids_of held (sessions w)) \<subseteq> queued_ids (committed w) \<and>
     queued_ids (committed w) \<subseteq> Q \<and>
     set (ids_of won (sessions w)) \<subseteq> Q \<and>
     Q - queued_ids (committed w) \<subseteq> set (ids_of won (sessions w)) \<and>
     set (ids_of won (sessions w)) \<inter> queued_ids (committed w) \<subseteq> set (ids_of held (sessions w))"

text \<open>
  What holds besides as long as no round trip has failed: no caller is in its \<^verbatim>\<open>catch\<close>
  block or has thrown, and when some caller has found nothing to claim, every row
  queued at the start is locked or claimed.
\<close>

definition unfailed_inv :: "string set \<Rightarrow> claim_world \<Rightarrow> bool" where
  "unfailed_inv Q w \<longleftrightarrow>
     (\<forall>s\<in>set (sessions w). unfailed s) \<and>
     ((\<exists>s\<in>set (sessions w). found_nothing s) \<longrightarrow> Q \<subseteq> set (ids_of won (sessions w)))"

section \<open>Pre- and postconditions of awaited operations\<close>

text \<open>
  \<open>ensures P m Q E\<close>: started in a state satisfying \<open>P\<close>, the operation \<open>m\<close> either
  resolves to a value \<open>v\<close> in a state satisfying \<open>Q v\<close> or rejects in a state
  satisfying \<open>E\<close>.
\<close>

definition ensures ::
  "('s \<Rightarrow> bool) \<Rightarrow> ('a, 's) async \<Rightarrow> ('a \<Rightarrow> 's \<Rightarrow> bool) \<Rightarrow> ('s \<Rightarrow> bool) \<Rightarrow> bool" where
  "ensures P m Q E = (\<forall>s. P s \<longrightarrow> (case m s of (Inr v, s') \<Rightarrow> Q v s' | (Inl e, s') \<Rightarrow> E s'))"

text \<open>
  The number of failing round trips among the coming ones, and a bound on it (\<open>None\<close>:
  no bound).  \<open>spent b\<close> is the bound that is left after a failure.
\<close>

definition failures :: "string option list \<Rightarrow> nat" where
  "failures fs = length (filter (\<lambda>f. f \<noteq> None) fs)"

definition bounded_failures :: "nat option \<Rightarrow> world \<Rightarrow> bool" where
  "bounded_failures b w \<longleftrightarrow> (case b of None \<Rightarrow> True | Some n \<Rightarrow> failures (faults w) \<le> n)"

definition spent :: "nat option \<Rightarrow> nat option" where
  "spent b = map_option (\<lambda>n. n - 1) b"

definition state_is ::
  "database \<Rightarrow> transaction option \<Rightarrow> string list \<Rightarrow> nat option \<Rightarrow> world \<Rightarrow> bool" where
  "state_is S T C b w \<longleftrightarrow> store w = S \<and> txn w = T \<and> console w = C \<and> bounded_failures b w"

text \<open>
  \<open>block_of S T\<close> is what the statements of a transaction see that is begun on a
  session in the state \<open>T\<close> over the committed store \<open>S\<close>.  \<open>failed_state\<close> describes
  the world in a \<^verbatim>\<open>catch\<close> block: the committed store is untouched, and either a round
  trip has failed or the store has refused a statement (\<open>refused\<close>).  \<open>rolled_back\<close>
  describes it after the \<^verbatim>\<open>ROLLBACK\<close> of the \<^verbatim>\<open>catch\<close> block: a transaction block is
  still there only when that round trip has failed too, and with no failing round trip
  at all the store has refused a statement.
\<close>

definition block_of :: "database \<Rightarrow> transaction option \<Rightarrow> database" where
  "block_of S T = (case T of Some (Open d) \<Rightarrow> d | _ \<Rightarrow> S)"

definition failed_state :: "database \<Rightarrow> string list \<Rightarrow> nat option \<Rightarrow> bool \<Rightarrow> world \<Rightarrow> bool" where
  "failed_state S C b refused w \<longleftrightarrow>
     store w = S \<and> console w = C \<and>
     ((b \<noteq> Some 0 \<and> bounded_failures (spent b) w) \<or> (refused \<and> bounded_failures b w))"

definition rolled_back :: "database \<Rightarrow> string list \<Rightarrow> nat option \<Rightarrow> bool \<Rightarrow> world \<Rightarrow> bool" where
  "rolled_back S C b refused w \<longleftrightarrow>
     store w = S \<and> console w = C \<and>
     (txn w = None \<or> (b \<noteq> Some 0 \<and> (refused \<or> spent b \<noteq> Some 0))) \<and>
     (b = Some 0 \<longrightarrow> refused)"

section \<open>Verified properties\<close>

subsection \<open>The retry wrapper\<close>



lemma withRetry_from_exhausted:
  "\<not> a \<le> N \<Longrightarrow>
   withRetry_from a le operation ctx N s = (Inl (exhausted_message ctx N le), s, [])"
  by (simp add: withRetry_from.simps [of a])

lemma withRetry_from_resolved:
  "a \<le> N \<Longrightarrow> operation s = (Inr v, s1) \<Longrightarrow>
   withRetry_from a le operation ctx N s = (Inr v, s1, [Invoked a])"
  by (simp add: withRetry_from.simps [of a])

lemma withRetry_from_rejected:
  "a \<le> N \<Longrightarrow> operation s = (Inl msg, s1) \<Longrightarrow>
   withRetry_from (a + 1) (Some msg) operation ctx N s1 = (r2, s2, tr2) \<Longrightarrow>
   withRetry_from a le operation ctx N s =
     (r2, s2, [Invoked a, Warned ctx a N msg]
              @ (if a < N then [Slept (DB_RETRY_DELAY_MS * a)] else []) @ tr2)"
  by (simp add: withRetry_from.simps [of a])






subsection \<open>Rules for awaited operations\<close>


lemma ensuresI:
  "(\<And>s r s'. P s \<Longrightarrow> m s = (r, s') \<Longrightarrow> (case r of Inr v \<Rightarrow> Q v s' | Inl e \<Rightarrow> E s')) \<Longrightarrow> ensures P m Q E"
  by (auto simp: ensures_def split: prod.splits sum.splits)

lemma ensuresD:
  "ensures P m Q E \<Longrightarrow> P s \<Longrightarrow> m s = (r, s') \<Longrightarrow> (case r of Inr v \<Rightarrow> Q v s' | Inl e \<Rightarrow> E s')"
  by (auto simp: ensures_def split: prod.splits sum.splits)

lemma ensures_await:
  "ensures P m Q E \<Longrightarrow> (\<And>v. ensures (Q v) (k v) R E) \<Longrightarrow> ensures P (await m k) R E"
  unfolding ensures_def await_def by (fastforce split: prod.splits sum.splits)

lemma ensures_try_catch:
  "ensures P m Q E \<Longrightarrow> (\<And>e. ensures E (h e) Q E') \<Longrightarrow> ensures P (try_catch m h) Q E'"
  unfolding ensures_def try_catch_def by (fastforce split: prod.splits sum.splits)

lemma ensures_try_finally:
  "ensures P m Q E \<Longrightarrow> (\<And>v s. Q v s \<Longrightarrow> Q' v (c s)) \<Longrightarrow> (\<And>s. E s \<Longrightarrow> E' (c s)) \<Longrightarrow>
   ensures P (try_finally m c) Q' E'"
  unfolding ensures_def try_finally_def by (fastforce split: prod.splits sum.splits)

lemma ensures_swallow:
  "ensures P m (\<lambda>_. Q) Q \<Longrightarrow> ensures P (swallow m) (\<lambda>_. Q) E"
  unfolding ensures_def swallow_def by (fastforce split: prod.splits sum.splits)

lemma ensures_resolve: "ensures (Q v) (resolve v) Q E"
  by (simp add: ensures_def resolve_def)

lemma ensures_reject: "ensures E (reject e) Q E"
  by (simp add: ensures_def reject_def)

lemma ensures_weaken:
  "ensures P' m Q' E' \<Longrightarrow> (\<And>s. P s \<Longrightarrow> P' s) \<Longrightarrow> (\<And>v s. Q' v s \<Longrightarrow> Q v s) \<Longrightarrow>
   (\<And>s. E' s \<Longrightarrow> E s) \<Longrightarrow> ensures P m Q E"
  unfolding ensures_def by (fastforce split: prod.splits sum.splits)

lemma ensures_pre:
  "ensures P' m Q E \<Longrightarrow> (\<And>s. P s \<Longrightarrow> P' s) \<Longrightarrow> ensures P m Q E"
  by (erule ensures_weaken)

lemma withRetry_from_ensures:
  assumes op: "ensures I operation Q I"
    and "I s" and "withRetry_from a le operation ctx N s = (r, s', tr)"
  shows "case r of Inr v \<Rightarrow> Q v s' | Inl e \<Rightarrow> I s'"
  using assms
proof (induction a le operation ctx N s arbitrary: r s' tr rule: withRetry_from.induct)
  case (1 attempt lastError operation ctx maxAttempts s)
  note op = "1.prems"(1)
  show ?case
  proof (cases "attempt \<le> maxAttempts")
    case False
    with "1.prems" show ?thesis
      by (auto simp: withRetry_from_exhausted)
  next
    case le: True
    obtain res s1 where op1: "operation s = (res, s1)"
      by (cases "operation s")
    note post = ensuresD [OF op \<open>I s\<close> op1]
    show ?thesis
    proof (cases res)
      case (Inr v)
      with le op1 "1.prems" post show ?thesis
        by (auto simp: withRetry_from_resolved)
    next
      case (Inl msg)
      obtain r2 s2 tr2 where rec:
        "withRetry_from (attempt + 1) (Some msg) operation ctx maxAttempts s1 = (r2, s2, tr2)"
        by (metis prod_cases3)
      from le op1 Inl rec "1.prems" have "s' = s2" "r = r2"
        by (auto simp: withRetry_from_rejected)
      moreover from post Inl have "I s1" by simp
      ultimately show ?thesis
        using "1.IH" [OF le op1 [symmetric] Inl op _ rec] by (auto split: sum.splits)
    qed
  qed
qed

lemma ensures_retrying:
  "ensures I operation Q I \<Longrightarrow> ensures I (retrying operation ctx) Q I"
  by (rule ensuresI)
    (auto simp: retrying_def withRetry_def split: prod.splits dest: withRetry_from_ensures)


subsection \<open>Round trips, statements and transaction blocks\<close>

lemma failures_simps [simp]:
  "failures [] = 0" "failures (None # fs) = failures fs" "failures (Some e # fs) = Suc (failures fs)"
  by (simp_all add: failures_def)

lemma failures_tl: "failures (tl fs) \<le> failures fs"
  by (cases fs) (auto simp: failures_def)

lemma failures_zero: "failures fs = 0 \<longleftrightarrow> (\<forall>f\<in>set fs. f = None)"
  by (induction fs) (auto simp: failures_def)

lemma round_trip_eq:
  "round_trip w =
     ((case faults w of Some e # fs \<Rightarrow> Inl e | _ \<Rightarrow> Inr ()), w\<lparr>faults := tl (faults w)\<rparr>)"
proof (cases "faults w")
  case Nil
  then have "w\<lparr>faults := tl (faults w)\<rparr> = w" by (cases w) simp
  with Nil show ?thesis by (simp add: round_trip_def)
next
  case (Cons f fs)
  then show ?thesis by (cases f) (simp_all add: round_trip_def)
qed

lemma round_trip_cases:
  assumes "round_trip w = (r, w')"
  shows "w' = w\<lparr>faults := tl (faults w)\<rparr> \<and>
         (case r of Inr _ \<Rightarrow> \<forall>e fs. faults w \<noteq> Some e # fs | Inl e \<Rightarrow> \<exists>fs. faults w = Some e # fs)"
  using assms unfolding round_trip_eq by (auto split: list.splits option.splits)

lemma bounded_kept:
  "bounded_failures b w \<Longrightarrow> bounded_failures b (w\<lparr>faults := tl (faults w)\<rparr>)"
  using failures_tl [of "faults w"] by (auto simp: bounded_failures_def split: option.splits)

lemma bounded_spent:
  "bounded_failures b w \<Longrightarrow> faults w = Some e # fs \<Longrightarrow>
   b \<noteq> Some 0 \<and> bounded_failures (spent b) (w\<lparr>faults := tl (faults w)\<rparr>)"
  by (auto simp: bounded_failures_def spent_def split: option.splits)

lemma bounded_spent_weak: "bounded_failures (spent b) w \<Longrightarrow> bounded_failures b w"
  by (auto simp: bounded_failures_def spent_def split: option.splits)

lemma bounded_updates [simp]:
  "bounded_failures b (w\<lparr>store := S\<rparr>) = bounded_failures b w"
  "bounded_failures b (w\<lparr>txn := T\<rparr>) = bounded_failures b w"
  "bounded_failures b (w\<lparr>console := C\<rparr>) = bounded_failures b w"
  by (simp_all add: bounded_failures_def split: option.splits)

lemma abort_block_fields [simp]:
  "store (abort_block w) = store w" "console (abort_block w) = console w"
  "faults (abort_block w) = faults w" "bounded_failures b (abort_block w) = bounded_failures b w"
  "txn (abort_block w) = (case txn w of None \<Rightarrow> None | Some t \<Rightarrow> Some Aborted)"
  by (simp_all add: abort_block_def bounded_failures_def split: option.splits)

lemma ensures_round_trip:
  "ensures (state_is S T C b) round_trip (\<lambda>_. state_is S T C b)
     (\<lambda>w. state_is S T C (spent b) w \<and> b \<noteq> Some 0)"
proof (rule ensuresI)
  fix w r w' assume pre: "state_is S T C b w" and run: "round_trip w = (r, w')"
  note rt = round_trip_cases [OF run]
  show "case r of Inr v \<Rightarrow> state_is S T C b w' | Inl e \<Rightarrow> state_is S T C (spent b) w' \<and> b \<noteq> Some 0"
  proof (cases r)
    case (Inr v)
    with rt pre bounded_kept [of b w] show ?thesis
      by (simp add: state_is_def)
  next
    case (Inl e)
    with rt obtain fs where "faults w = Some e # fs" by auto
    with pre bounded_spent [of b w e fs] rt Inl show ?thesis
      by (simp add: state_is_def)
  qed
qed

lemma getClient_eq:
  "getClient w =
     (case faults w of
        Some e1 # Some e2 # Some e3 # fs \<Rightarrow>
          (Inl (exhausted_message ''Database connection'' 3 (Some e3)), w\<lparr>faults := fs\<rparr>)
      | Some e1 # Some e2 # fs \<Rightarrow> (Inr (), w\<lparr>faults := tl fs\<rparr>)
      | Some e1 # fs \<Rightarrow> (Inr (), w\<lparr>faults := tl fs\<rparr>)
      | fs \<Rightarrow> (Inr (), w\<lparr>faults := tl fs\<rparr>))"
  by (simp add: getClient_def retrying_def withRetry_def DB_RETRY_ATTEMPTS_def pool_connect_def
      withRetry_from.simps [of 1] withRetry_from.simps [of 2] withRetry_from.simps [of 3]
      withRetry_from.simps [of 4] round_trip_eq
      split: list.splits option.splits)

lemma getClient_cases:
  assumes "getClient w = (r, w')"
  shows "store w' = store w \<and> txn w' = txn w \<and> console w' = console w \<and>
         failures (faults w') \<le> failures (faults w) \<and>
         (isl r \<longrightarrow> 3 \<le> failures (faults w))"
  using assms unfolding getClient_eq
  by (auto split: list.splits option.splits)

lemma ensures_getClient:
  "ensures (state_is S T C b) getClient (\<lambda>_. state_is S T C b)
     (\<lambda>w. store w = S \<and> txn w = T \<and> console w = C \<and> b \<noteq> Some 0 \<and> spent b \<noteq> Some 0)"
proof (rule ensuresI)
  fix w r w' assume pre: "state_is S T C b w" and run: "getClient w = (r, w')"
  note gc = getClient_cases [OF run]
  show "case r of Inr v \<Rightarrow> state_is S T C b w'
        | Inl e \<Rightarrow> store w' = S \<and> txn w' = T \<and> console w' = C \<and> b \<noteq> Some 0 \<and> spent b \<noteq> Some 0"
    using gc pre
    by (cases r) (auto simp: state_is_def bounded_failures_def spent_def split: option.splits)
qed

lemma ensures_sql_begin:
  "ensures (state_is S T C b) sql_begin
     (\<lambda>_ w. T \<noteq> Some Aborted \<and> state_is S (Some (Open (block_of S T))) C b w)
     (failed_state S C b (T = Some Aborted))"
proof (rule ensuresI)
  fix w r w' assume pre: "state_is S T C b w" and run: "sql_begin w = (r, w')"
  obtain r0 w0 where rt: "round_trip w = (r0, w0)" by (cases "round_trip w")
  note post = ensuresD [OF ensures_round_trip pre rt]
  show "case r of Inr v \<Rightarrow> T \<noteq> Some Aborted \<and> state_is S (Some (Open (block_of S T))) C b w'
        | Inl e \<Rightarrow> failed_state S C b (T = Some Aborted) w'"
    using run rt post unfolding sql_begin_def
    by (cases r0)
      (auto simp: state_is_def failed_state_def block_of_def
        split: option.splits transaction.splits)
qed

lemma ensures_client_query:
  "ensures (state_is S T C b) (client_query stmt)
     (\<lambda>v w. T \<noteq> Some Aborted \<and>
        (\<exists>d. stmt (block_of S T) = Inr (v, d) \<and>
           (case T of None \<Rightarrow> state_is d None C b w
                    | Some t \<Rightarrow> state_is S (Some (Open d)) C b w)))
     (\<lambda>w. failed_state S C b (T = Some Aborted \<or> isl (stmt (block_of S T))) w \<and>
          txn w = (case T of None \<Rightarrow> None | Some t \<Rightarrow> Some Aborted))"
proof (rule ensuresI)
  fix w r w' assume pre: "state_is S T C b w" and run: "client_query stmt w = (r, w')"
  obtain r0 w0 where rt: "round_trip w = (r0, w0)" by (cases "round_trip w")
  note post = ensuresD [OF ensures_round_trip pre rt]
  show "case r of
          Inr v \<Rightarrow> T \<noteq> Some Aborted \<and>
            (\<exists>d. stmt (block_of S T) = Inr (v, d) \<and>
               (case T of None \<Rightarrow> state_is d None C b w'
                        | Some t \<Rightarrow> state_is S (Some (Open d)) C b w'))
        | Inl e \<Rightarrow> failed_state S C b (T = Some Aborted \<or> isl (stmt (block_of S T))) w' \<and>
            txn w' = (case T of None \<Rightarrow> None | Some t \<Rightarrow> Some Aborted)"
  proof (cases r0)
    case (Inl e)
    with run rt post show ?thesis unfolding client_query_def
      by (auto simp: state_is_def failed_state_def split: option.splits)
  next
    case (Inr u)
    show ?thesis
    proof (cases T)
      case None
      with Inr run rt post show ?thesis unfolding client_query_def
        by (cases "stmt S") (auto simp: state_is_def failed_state_def block_of_def)
    next
      case (Some t)
      show ?thesis
      proof (cases t)
        case Aborted
        with Some Inr run rt post show ?thesis unfolding client_query_def
          by (auto simp: state_is_def failed_state_def block_of_def)
      next
        case (Open d)
        with Some Inr run rt post show ?thesis unfolding client_query_def
          by (cases "stmt d") (auto simp: state_is_def failed_state_def block_of_def)
      qed
    qed
  qed
qed

lemma ensures_sql_commit:
  "ensures (state_is S T C b) sql_commit
     (\<lambda>_. state_is (block_of S T) None C b)
     (\<lambda>w. failed_state S C b False w \<and>
          txn w = (case T of None \<Rightarrow> None | Some t \<Rightarrow> Some Aborted))"
proof (rule ensuresI)
  fix w r w' assume pre: "state_is S T C b w" and run: "sql_commit w = (r, w')"
  obtain r0 w0 where rt: "round_trip w = (r0, w0)" by (cases "round_trip w")
  note post = ensuresD [OF ensures_round_trip pre rt]
  show "case r of Inr v \<Rightarrow> state_is (block_of S T) None C b w'
        | Inl e \<Rightarrow> failed_state S C b False w' \<and>
            txn w' = (case T of None \<Rightarrow> None | Some t \<Rightarrow> Some Aborted)"
    using run rt post unfolding sql_commit_def
    by (cases r0)
      (auto simp: state_is_def failed_state_def block_of_def
        split: option.splits transaction.splits)
qed

text \<open>The catch block shared by the transactional functions.\<close>

lemma ensures_rollback_rethrow:
  fixes Q :: "'v \<Rightarrow> world \<Rightarrow> bool"
  shows "ensures (failed_state S C b refused) (await (swallow sql_rollback) (\<lambda>_. reject err))
     Q (rolled_back S C b refused)"
proof (rule ensuresI)
  fix w w' and r :: "string + 'v"
  assume pre: "failed_state S C b refused w"
    and run: "await (swallow sql_rollback) (\<lambda>_. reject err) w = (r, w')"
  obtain r0 w0 where rt: "round_trip w = (r0, w0)" by (cases "round_trip w")
  note c = round_trip_cases [OF rt]
  from run rt have r: "r = Inl err"
    and w': "w' = (case r0 of Inl e \<Rightarrow> abort_block w0 | Inr u \<Rightarrow> w0\<lparr>txn := None\<rparr>)"
    by (auto simp: await_def swallow_def reject_def sql_rollback_def split: sum.splits)
  have "rolled_back S C b refused w'"
  proof (cases r0)
    case (Inr u)
    with w' c pre show ?thesis
      by (auto simp: rolled_back_def failed_state_def)
  next
    case (Inl e)
    with c obtain fs where head: "faults w = Some e # fs" by auto
    from pre consider "b \<noteq> Some 0" "bounded_failures (spent b) w"
      | "refused" "bounded_failures b w"
      unfolding failed_state_def by blast
    then have "b \<noteq> Some 0 \<and> (refused \<or> spent b \<noteq> Some 0)"
    proof cases
      case 1
      with bounded_spent [OF 1(2) head] show ?thesis by simp
    next
      case 2
      with bounded_spent [OF 2(2) head] show ?thesis by simp
    qed
    with Inl w' c pre show ?thesis
      by (auto simp: rolled_back_def failed_state_def)
  qed
  with r show "case r of Inr v \<Rightarrow> Q v w' | Inl e \<Rightarrow> rolled_back S C b refused w'"
    by simp
qed

lemma failed_state_weaken:
  "failed_state S C b refused w \<Longrightarrow> (refused \<Longrightarrow> refused') \<Longrightarrow> failed_state S C b refused' w"
  by (auto simp: failed_state_def)

subsection \<open>Completing a job is all-or-nothing\<close>

lemma ensures_assuming: "(A \<Longrightarrow> ensures P m Q E) \<Longrightarrow> ensures (\<lambda>s. A \<and> P s) m Q E"
  by (auto simp: ensures_def)

lemma update_credits_accepted:
  "debit_accepted cd userId d \<Longrightarrow>
   update_credits cd userId now d = Inr ((), debit (the cd) userId now d)"
  by (cases cd) (auto simp: update_credits_def debit_accepted_def)

lemma update_credits_refused:
  "\<not> debit_accepted cd userId d \<Longrightarrow> isl (update_credits cd userId now d)"
  by (cases cd) (auto simp: update_credits_def debit_accepted_def)

lemma debit_accepted_set_completed [simp]:
  "debit_accepted cd userId (set_completed url jobId now d) = debit_accepted cd userId d"
  by (simp add: debit_accepted_def set_completed_def split: option.splits)

lemma completeJob_ensures:
  "ensures (state_is S T C b) (completeJob jobId url userId cd now)
     (\<lambda>_ w. T \<noteq> Some Aborted \<and> debit_accepted cd userId (block_of S T) \<and>
        state_is (debit (the cd) userId now (set_completed url jobId now (block_of S T))) None C b w)
     (rolled_back S C b (T = Some Aborted \<or> \<not> debit_accepted cd userId (block_of S T)))"
proof -
  let ?D = "block_of S T"
  let ?D1 = "set_completed url jobId now ?D"
  let ?D2 = "debit (the cd) userId now ?D1"
  let ?refused = "T = Some Aborted \<or> \<not> debit_accepted cd userId ?D"
  let ?ok = "T \<noteq> Some Aborted \<and> debit_accepted cd userId ?D"
  let ?Done = "\<lambda>(_ :: unit) w. T \<noteq> Some Aborted \<and> debit_accepted cd userId ?D \<and>
                  state_is ?D2 None C b w"
  let ?F = "failed_state S C b ?refused"
  have commit: "ensures (\<lambda>w. ?ok \<and> state_is S (Some (Open ?D2)) C b w)
      (await sql_commit (\<lambda>_. resolve ())) ?Done ?F"
  proof (rule ensures_assuming)
    assume ok: ?ok
    have "ensures (state_is S (Some (Open ?D2)) C b) sql_commit (\<lambda>_. ?Done ()) ?F"
      by (rule ensures_weaken [OF ensures_sql_commit])
        (use ok in \<open>auto simp: block_of_def failed_state_def\<close>)
    then show "ensures (state_is S (Some (Open ?D2)) C b) (await sql_commit (\<lambda>_. resolve ()))
        ?Done ?F"
      by (rule ensures_await) (rule ensures_resolve)
  qed
  have debit: "ensures (\<lambda>w. T \<noteq> Some Aborted \<and> state_is S (Some (Open ?D1)) C b w)
      (client_query (update_credits cd userId now))
      (\<lambda>_ w. ?ok \<and> state_is S (Some (Open ?D2)) C b w) ?F"
  proof (rule ensures_assuming)
    assume alive: "T \<noteq> Some Aborted"
    show "ensures (state_is S (Some (Open ?D1)) C b) (client_query (update_credits cd userId now))
      (\<lambda>_ w. ?ok \<and> state_is S (Some (Open ?D2)) C b w) ?F"
    proof (cases "debit_accepted cd userId ?D")
      case True
      then have stmt: "update_credits cd userId now ?D1 = Inr ((), ?D2)"
        by (simp add: update_credits_accepted)
      show ?thesis
        by (rule ensures_weaken [OF ensures_client_query])
          (use True alive stmt in \<open>auto simp: block_of_def failed_state_def\<close>)
    next
      case False
      then have stmt: "isl (update_credits cd userId now ?D1)"
        by (simp add: update_credits_refused)
      show ?thesis
        by (rule ensures_weaken [OF ensures_client_query])
          (use False stmt in \<open>auto simp: block_of_def failed_state_def\<close>)
    qed
  qed
  have status: "ensures (\<lambda>w. T \<noteq> Some Aborted \<and> state_is S (Some (Open ?D)) C b w)
      (client_query (update_completed url jobId now))
      (\<lambda>_ w. T \<noteq> Some Aborted \<and> state_is S (Some (Open ?D1)) C b w) ?F"
  proof (rule ensures_assuming)
    assume alive: "T \<noteq> Some Aborted"
    show "ensures (state_is S (Some (Open ?D)) C b) (client_query (update_completed url jobId now))
      (\<lambda>_ w. T \<noteq> Some Aborted \<and> state_is S (Some (Open ?D1)) C b w) ?F"
      by (rule ensures_weaken [OF ensures_client_query])
        (use alive in \<open>auto simp: block_of_def failed_state_def update_completed_def\<close>)
  qed
  have start: "ensures (state_is S T C b) sql_begin
      (\<lambda>_ w. T \<noteq> Some Aborted \<and> state_is S (Some (Open ?D)) C b w) ?F"
    by (rule ensures_weaken [OF ensures_sql_begin]) (auto simp: failed_state_def)
  have body: "ensures (state_is S T C b)
      (await sql_begin (\<lambda>_.
       await (client_query (update_completed url jobId now)) (\<lambda>_.
       await (client_query (update_credits cd userId now)) (\<lambda>_.
       await sql_commit (\<lambda>_. resolve ())))))
      ?Done ?F"
    by (intro ensures_await [OF start] ensures_await [OF status] ensures_await [OF debit] commit)
  have handler: "ensures ?F (await (swallow sql_rollback) (\<lambda>_. reject err)) ?Done
      (rolled_back S C b ?refused)" for err
    by (rule ensures_rollback_rethrow)
  have guarded: "ensures (state_is S T C b)
      (try_finally
         (try_catch
            (await sql_begin (\<lambda>_.
             await (client_query (update_completed url jobId now)) (\<lambda>_.
             await (client_query (update_credits cd userId now)) (\<lambda>_.
             await sql_commit (\<lambda>_. resolve ())))))
            (\<lambda>err. await (swallow sql_rollback) (\<lambda>_. reject err)))
         release)
      ?Done (rolled_back S C b ?refused)"
    by (rule ensures_try_finally [OF ensures_try_catch [OF body handler]])
      (simp_all add: release_def)
  have client: "ensures (state_is S T C b) getClient (\<lambda>_. state_is S T C b)
      (rolled_back S C b ?refused)"
    by (rule ensures_weaken [OF ensures_getClient]) (auto simp: rolled_back_def)
  show ?thesis
    unfolding completeJob_def by (rule ensures_await [OF client]) (rule guarded)
qed

lemma completeJob_cases:
  assumes run: "completeJob jobId url userId cd now w = (r, w')"
    and fresh: "txn w = None" and bound: "bounded_failures b w"
  shows "case r of
           Inr _ \<Rightarrow> debit_accepted cd userId (store w) \<and>
             state_is (debit (the cd) userId now (set_completed url jobId now (store w)))
               None (console w) b w'
         | Inl e \<Rightarrow> rolled_back (store w) (console w) b (\<not> debit_accepted cd userId (store w)) w'"
proof -
  from fresh bound have "state_is (store w) None (console w) b w"
    by (simp add: state_is_def)
  from ensuresD [OF completeJob_ensures this run] show ?thesis
    by (cases r) (simp_all add: block_of_def)
qed

lemma bounded_by_count: "failures (faults w) \<le> n \<Longrightarrow> bounded_failures (Some n) w"
  by (simp add: bounded_failures_def)

lemma unbounded: "bounded_failures None w"
  by (simp add: bounded_failures_def)

lemmas run_simps =
  completeJob_def getNextJob_def safeQuery_def failJob_def progress_write_def
  await_def try_finally_def try_catch_def swallow_def resolve_def reject_def release_def
  getClient_eq round_trip_eq client_query_def sql_begin_def sql_commit_def sql_rollback_def
  abort_block_def retrying_def withRetry_def DB_RETRY_ATTEMPTS_def
  update_completed_def update_credits_def update_rendering_def update_failed_def
  update_progress_def set_statement_timeout_def select_skip_locked_def oldest_unlocked_def
  set_completed_def debit_def set_rendering_def set_failed_def set_progress_def
  debit_accepted_def int4_def

text \<open>
  Claim C3.  \<open>completeJob\<close> is all-or-nothing.  It is called on a client on which no
  transaction block is open.  Whatever round trips to the store fail, it either
  resolves, and then the committed store holds both writes (the rows of \<open>render_jobs\<close>
  with the job's id are completed and the rows of \<open>users\<close> with the user's id are
  debited) and the block is closed, or it rejects, and then the committed store is the
  one it started from: neither write is visible.  With no failing round trip it
  resolves exactly when the store takes the debit, and the block is closed also when it
  rejects: the \<^verbatim>\<open>ROLLBACK\<close> of the \<^verbatim>\<open>catch\<close> block has ended it.  The block is closed
  as well when one round trip fails, whichever it is, and the store would take the debit.
\<close>

theorem completeJob_all_or_nothing:
  assumes run: "completeJob jobId url userId creditsToDeduct now w = (r, w')"
    and fresh: "txn w = None"
  shows "((r = Inr () \<and>
           (\<exists>amount. creditsToDeduct = Some amount \<and>
              store w' = debit amount userId now (set_completed url jobId now (store w))) \<and>
           txn w' = None) \<or>
          ((\<exists>e. r = Inl e) \<and> store w' = store w)) \<and>
         (failures (faults w) = 0 \<longrightarrow>
            txn w' = None \<and> (r = Inr () \<longleftrightarrow> debit_accepted creditsToDeduct userId (store w))) \<and>
         (failures (faults w) \<le> 1 \<and> debit_accepted creditsToDeduct userId (store w) \<longrightarrow>
            txn w' = None)"
proof (intro conjI impI)
  note any = completeJob_cases [OF run fresh unbounded]
  show "(r = Inr () \<and>
           (\<exists>amount. creditsToDeduct = Some amount \<and>
              store w' = debit amount userId now (set_completed url jobId now (store w))) \<and>
           txn w' = None) \<or>
          ((\<exists>e. r = Inl e) \<and> store w' = store w)"
  proof (cases r)
    case (Inr u)
    with any have "debit_accepted creditsToDeduct userId (store w)"
      and post: "state_is (debit (the creditsToDeduct) userId now
                   (set_completed url jobId now (store w))) None (console w) None w'"
      by simp_all
    from this(1) obtain amount where "creditsToDeduct = Some amount"
      by (cases creditsToDeduct) (simp_all add: debit_accepted_def)
    with post Inr show ?thesis
      by (simp add: state_is_def)
  next
    case (Inl e)
    with any show ?thesis
      by (simp add: rolled_back_def)
  qed
next
  assume "failures (faults w) = 0"
  then have "bounded_failures (Some 0) w"
    by (simp add: bounded_by_count)
  note quiet = completeJob_cases [OF run fresh this]
  show "txn w' = None"
    using quiet by (cases r) (simp_all add: state_is_def rolled_back_def)
  show "r = Inr () \<longleftrightarrow> debit_accepted creditsToDeduct userId (store w)"
    using quiet by (cases r) (simp_all add: state_is_def rolled_back_def)
next
  assume "failures (faults w) \<le> 1 \<and> debit_accepted creditsToDeduct userId (store w)"
  then have "bounded_failures (Some 1) w" and ok: "debit_accepted creditsToDeduct userId (store w)"
    by (simp_all add: bounded_by_count)
  from completeJob_cases [OF run fresh this(1)] ok show "txn w' = None"
    by (cases r) (simp_all add: state_is_def rolled_back_def spent_def)
qed

theorem completeJob_all_or_nothing_witness:
  "(let w = \<lparr>store = \<lparr>render_jobs =
                 [\<lparr>job_id = ''j1'', status = Rendering, user_id = 7,
                   input_props = \<lparr>durationInFrames = 1800, fps = 30\<rparr>, progress = 1 / 2,
                   output_url = None, error = None, created_at = 10, started_at = Some 20,
                   completed_at = None\<rparr>],
               users = [\<lparr>usr_id = 7, credits = 10, updated_at = 0\<rparr>]\<rparr>,
             txn = None, faults = [None, None, None, Some ''connection reset''], console = []\<rparr>
    in isl (fst (completeJob ''j1'' ''renders/j1.mp4'' 7 (Some 2) 50 w)) \<and>
       store (snd (completeJob ''j1'' ''renders/j1.mp4'' 7 (Some 2) 50 w)) = store w \<and>
       txn (snd (completeJob ''j1'' ''renders/j1.mp4'' 7 (Some 2) 50 w)) = None \<and>
       fst (completeJob ''j1'' ''renders/j1.mp4'' 7 (Some 2) 50 (w\<lparr>faults := []\<rparr>)) = Inr () \<and>
       map status (render_jobs (store (snd
          (completeJob ''j1'' ''renders/j1.mp4'' 7 (Some 2) 50 (w\<lparr>faults := []\<rparr>))))) = [Completed] \<and>
       map credits (users (store (snd
          (completeJob ''j1'' ''renders/j1.mp4'' 7 (Some 2) 50 (w\<lparr>faults := []\<rparr>))))) = [8])"
proof -
  define w where "w = \<lparr>store = \<lparr>render_jobs =
                 [\<lparr>job_id = ''j1'', status = Rendering, user_id = 7,
                   input_props = \<lparr>durationInFrames = 1800, fps = 30\<rparr>, progress = 1 / 2 :: rat,
                   output_url = None :: string option, error = None :: string option,
                   created_at = 10, started_at = Some 20, completed_at = None :: int option\<rparr>],
               users = [\<lparr>usr_id = 7, credits = 10, updated_at = 0\<rparr>]\<rparr>,
             txn = None, faults = [None, None, None, Some ''connection reset''], console = []\<rparr>"
  obtain r w' where run: "completeJob ''j1'' ''renders/j1.mp4'' 7 (Some 2) 50 w = (r, w')"
    by (cases "completeJob ''j1'' ''renders/j1.mp4'' 7 (Some 2) 50 w")
  obtain r0 w0 where run0:
    "completeJob ''j1'' ''renders/j1.mp4'' 7 (Some 2) 50 (w\<lparr>faults := []\<rparr>) = (r0, w0)"
    by (cases "completeJob ''j1'' ''renders/j1.mp4'' 7 (Some 2) 50 (w\<lparr>faults := []\<rparr>)")
  have fresh: "txn w = None" "txn (w\<lparr>faults := []\<rparr>) = None"
    and one: "failures (faults w) \<le> 1" "failures (faults (w\<lparr>faults := []\<rparr>)) = 0"
    and takes: "debit_accepted (Some 2) 7 (store w)"
      "debit_accepted (Some 2) 7 (store (w\<lparr>faults := []\<rparr>))"
    by (simp_all add: w_def debit_accepted_def int4_def)
  have rejected: "isl r"
    using run by (auto simp add: w_def run_simps)
  note claim = completeJob_all_or_nothing [OF run fresh(1)]
  from claim rejected have same: "store w' = store w"
    by auto
  from claim one(1) takes(1) have closed: "txn w' = None"
    by blast
  note claim0 = completeJob_all_or_nothing [OF run0 fresh(2)]
  from claim0 one(2) takes(2) have resolved: "r0 = Inr ()"
    by blast
  with claim0 have "store w0 = debit 2 7 50 (set_completed ''renders/j1.mp4'' ''j1'' 50 (store w))"
    by auto
  then have rows: "map status (render_jobs (store w0)) = [Completed]"
    "map credits (users (store w0)) = [8]"
    by (simp_all add: w_def debit_def set_completed_def)
  from rejected same closed resolved rows show ?thesis
    unfolding Let_def w_def [symmetric] run run0 by simp
qed

subsection \<open>Debits are floored at zero\<close>

lemma users_debit_completed:
  "users (debit amount userId now (set_completed url jobId now db)) =
     map (\<lambda>u. if usr_id u = userId
              then u\<lparr>credits := max (credits u - amount) 0, updated_at := now\<rparr> else u) (users db)"
  by (simp add: debit_def set_completed_def)

lemma render_jobs_debit_completed:
  "render_jobs (debit amount userId now (set_completed url jobId now db)) =
     map (\<lambda>j. if job_id j = jobId
              then j\<lparr>status := Completed, output_url := Some url, progress := 1,
                     completed_at := Some now\<rparr>
              else j) (render_jobs db)"
  by (simp add: debit_def set_completed_def)

lemma credits_debited:
  "map credits (map (\<lambda>u. if usr_id u = userId
              then u\<lparr>credits := max (credits u - amount) 0, updated_at := now\<rparr> else u) us) =
   map (\<lambda>u. if usr_id u = userId then max (credits u - amount) 0 else credits u) us"
  by (induction us) simp_all

lemma completed_rows:
  assumes "j \<in> set (map (\<lambda>j. if job_id j = jobId
              then j\<lparr>status := Completed, output_url := Some url, progress := 1,
                     completed_at := Some now\<rparr>
              else j) js)" and "job_id j = jobId"
  shows "status j = Completed"
proof -
  from assms(1) obtain x where j: "j = (if job_id x = jobId
              then x\<lparr>status := Completed, output_url := Some url, progress := 1,
                     completed_at := Some now\<rparr>
              else x)"
    unfolding set_map by (elim imageE)
  show ?thesis
  proof (cases "job_id x = jobId")
    case True
    with j show ?thesis by simp
  next
    case False
    with j assms(2) show ?thesis by simp
  qed
qed

lemma credits_debited_nonneg:
  "\<forall>u\<in>set us. 0 \<le> credits u \<Longrightarrow>
   \<forall>u\<in>set (map (\<lambda>u. if usr_id u = userId
              then u\<lparr>credits := max (credits u - amount) 0, updated_at := now\<rparr> else u) us).
     0 \<le> credits u"
  by (induction us) simp_all

lemma debit_in_range:
  assumes "0 \<le> d" "int4 d" "\<forall>u\<in>set us. 0 \<le> credits u \<and> int4 (credits u)"
  shows "\<forall>u\<in>set us. usr_id u = userId \<longrightarrow> int4 (credits u - d)"
  using assms by (auto simp: int4_def)

text \<open>
  Claim C4.  No debit takes a balance below zero.  \<open>completeJob\<close> is called on a client
  on which no transaction block is open.  When it resolves, the balance of every
  ledger row of the user is \<open>max (c - d) 0\<close> for its former balance \<open>c\<close> and the debit
  \<open>d\<close>, the other rows keep their balance, and the job is completed; when it rejects
  the ledger is unchanged; so a ledger without negative balances stays without them, and
  a balance of 0 debited by a positive amount stays 0.  The debit is not conditional on
  the balance being sufficient: with no failing round trip \<open>completeJob\<close> resolves
  exactly when \<open>d\<close> and the differences \<open>c - d\<close> are values of the ledger's 32-bit
  integer column, which they are for every debit \<open>0 \<le> d < 2 ^ 31\<close> on a ledger
  of non-negative balances.
\<close>

theorem debit_never_below_zero:
  assumes run: "completeJob jobId url userId (Some d) now w = (r, w')"
    and fresh: "txn w = None"
  shows "(r = Inr () \<longrightarrow>
            map credits (users (store w')) =
              map (\<lambda>u. if usr_id u = userId then max (credits u - d) 0 else credits u)
                (users (store w)) \<and>
            (\<forall>j\<in>set (render_jobs (store w')). job_id j = jobId \<longrightarrow> status j = Completed)) \<and>
         (isl r \<longrightarrow> users (store w') = users (store w)) \<and>
         ((\<forall>u\<in>set (users (store w)). 0 \<le> credits u) \<longrightarrow>
            (\<forall>u\<in>set (users (store w')). 0 \<le> credits u)) \<and>
         (failures (faults w) = 0 \<longrightarrow>
            (r = Inr () \<longleftrightarrow>
               int4 d \<and> (\<forall>u\<in>set (users (store w)). usr_id u = userId \<longrightarrow> int4 (credits u - d)))) \<and>
         (failures (faults w) = 0 \<and> 0 \<le> d \<and> int4 d \<and>
          (\<forall>u\<in>set (users (store w)). 0 \<le> credits u \<and> int4 (credits u)) \<longrightarrow> r = Inr ())"
proof -
  from completeJob_cases [OF run fresh unbounded]
  have cases: "(r = Inr () \<and>
        store w' = debit d userId now (set_completed url jobId now (store w))) \<or>
      (isl r \<and> store w' = store w)"
    by (cases r) (simp_all add: state_is_def rolled_back_def)
  have credits: "map credits (users (store w')) =
      map (\<lambda>u. if usr_id u = userId then max (credits u - d) 0 else credits u) (users (store w))"
    if "r = Inr ()"
  proof -
    from cases that have "store w' = debit d userId now (set_completed url jobId now (store w))"
      by auto
    then show ?thesis
      by (simp only: users_debit_completed credits_debited)
  qed
  have completed: "\<forall>j\<in>set (render_jobs (store w')). job_id j = jobId \<longrightarrow> status j = Completed"
    if "r = Inr ()"
  proof -
    from cases that have "store w' = debit d userId now (set_completed url jobId now (store w))"
      by auto
    then show ?thesis
      by (simp only: render_jobs_debit_completed) (blast intro: completed_rows)
  qed
  have unchanged: "users (store w') = users (store w)" if "isl r"
    using cases that by auto
  have nonneg: "\<forall>u\<in>set (users (store w')). 0 \<le> credits u"
    if "\<forall>u\<in>set (users (store w)). 0 \<le> credits u"
  proof (cases "isl r")
    case True
    with unchanged that show ?thesis by simp
  next
    case False
    with cases have "store w' = debit d userId now (set_completed url jobId now (store w))"
      by auto
    then show ?thesis
      using credits_debited_nonneg [OF that] by (simp only: users_debit_completed)
  qed
  have taken: "r = Inr () \<longleftrightarrow>
      int4 d \<and> (\<forall>u\<in>set (users (store w)). usr_id u = userId \<longrightarrow> int4 (credits u - d))"
    if "failures (faults w) = 0"
  proof -
    from that have "bounded_failures (Some 0) w"
      by (simp add: bounded_by_count)
    from completeJob_cases [OF run fresh this]
    have "r = Inr () \<longleftrightarrow> debit_accepted (Some d) userId (store w)"
      by (cases r) (simp_all add: state_is_def rolled_back_def)
    then show ?thesis
      by (simp only: debit_accepted_def option.case)
  qed
  have ok: "r = Inr ()"
    if "failures (faults w) = 0 \<and> 0 \<le> d \<and> int4 d \<and>
        (\<forall>u\<in>set (users (store w)). 0 \<le> credits u \<and> int4 (credits u))"
  proof -
    from that have "\<forall>u\<in>set (users (store w)). usr_id u = userId \<longrightarrow> int4 (credits u - d)"
      by (intro debit_in_range) simp_all
    with that taken show ?thesis by blast
  qed
  show ?thesis
    using credits completed unchanged nonneg taken ok by (intro conjI impI) blast+
qed

theorem debit_never_below_zero_witness:
  "(let w = \<lparr>store = \<lparr>render_jobs =
                 [\<lparr>job_id = ''j2'', status = Rendering, user_id = 7,
                   input_props = \<lparr>durationInFrames = 1800, fps = 30\<rparr>, progress = 0,
                   output_url = None, error = None, created_at = 10, started_at = Some 20,
                   completed_at = None\<rparr>],
               users = [\<lparr>usr_id = 7, credits = 0, updated_at = 0\<rparr>,
                        \<lparr>usr_id = 8, credits = 5, updated_at = 0\<rparr>]\<rparr>,
             txn = None, faults = [], console = []\<rparr>
    in fst (completeJob ''j2'' ''renders/j2.mp4'' 7 (Some 2) 50 w) = Inr () \<and>
       map credits (users (store (snd (completeJob ''j2'' ''renders/j2.mp4'' 7 (Some 2) 50 w))))
         = [0, 5] \<and>
       map status (render_jobs (store (snd
         (completeJob ''j2'' ''renders/j2.mp4'' 7 (Some 2) 50 w)))) = [Completed] \<and>
       fst (completeJob ''j2'' ''renders/j2.mp4'' 8 (Some 2) 50 w) = Inr () \<and>
       map credits (users (store (snd (completeJob ''j2'' ''renders/j2.mp4'' 8 (Some 2) 50 w))))
         = [0, 3])"
proof -
  define w where "w = \<lparr>store = \<lparr>render_jobs =
                 [\<lparr>job_id = ''j2'', status = Rendering, user_id = 7,
                   input_props = \<lparr>durationInFrames = 1800, fps = 30\<rparr>, progress = 0 :: rat,
                   output_url = None :: string option, error = None :: string option,
                   created_at = 10, started_at = Some 20, completed_at = None :: int option\<rparr>],
               users = [\<lparr>usr_id = 7, credits = 0, updated_at = 0\<rparr>,
                        \<lparr>usr_id = 8, credits = 5, updated_at = 0\<rparr>]\<rparr>,
             txn = None, faults = [], console = []\<rparr>"
  obtain r1 w1 where run1: "completeJob ''j2'' ''renders/j2.mp4'' 7 (Some 2) 50 w = (r1, w1)"
    by (cases "completeJob ''j2'' ''renders/j2.mp4'' 7 (Some 2) 50 w")
  obtain r2 w2 where run2: "completeJob ''j2'' ''renders/j2.mp4'' 8 (Some 2) 50 w = (r2, w2)"
    by (cases "completeJob ''j2'' ''renders/j2.mp4'' 8 (Some 2) 50 w")
  have fresh: "txn w = None"
    and given: "failures (faults w) = 0 \<and> 0 \<le> (2::int) \<and> int4 2 \<and>
      (\<forall>u\<in>set (users (store w)). 0 \<le> credits u \<and> int4 (credits u))"
    and rows: "map usr_id (users (store w)) = [7, 8]" "map credits (users (store w)) = [0, 5]"
      "map job_id (render_jobs (store w)) = [''j2'']"
    by (simp_all add: w_def int4_def)
  note claim1 = debit_never_below_zero [OF run1 fresh]
  note claim2 = debit_never_below_zero [OF run2 fresh]
  from claim1 given have r1: "r1 = Inr ()" by blast
  from claim2 given have r2: "r2 = Inr ()" by blast
  from claim1 r1 have "map credits (users (store w1)) =
      map (\<lambda>u. if usr_id u = 7 then max (credits u - 2) 0 else credits u) (users (store w))"
    by blast
  then have c1: "map credits (users (store w1)) = [0, 5]"
    by (simp add: w_def)
  from claim2 r2 have "map credits (users (store w2)) =
      map (\<lambda>u. if usr_id u = 8 then max (credits u - 2) 0 else credits u) (users (store w))"
    by blast
  then have c2: "map credits (users (store w2)) = [0, 3]"
    by (simp add: w_def)
  from claim1 r1 have all: "\<forall>j\<in>set (render_jobs (store w1)). job_id j = ''j2'' \<longrightarrow> status j = Completed"
    by blast
  have "store w1 = debit 2 7 50 (set_completed ''renders/j2.mp4'' ''j2'' 50 (store w))"
    using completeJob_cases [OF run1 fresh unbounded] r1 by (simp add: state_is_def)
  then have s1: "map status (render_jobs (store w1)) = [Completed]"
    by (simp add: w_def debit_def set_completed_def)
  from r1 r2 c1 c2 s1 show ?thesis
    using run1 run2 unfolding w_def [symmetric] Let_def by simp
qed

text \<open>
  A debit of \<open>2 ^ 31\<close> credits on a balance of 5, and a debit of \<open>-1\<close> on a balance of
  \<open>2 ^ 31 - 1\<close>, with no failing round trip: the store refuses the statement,
  \<open>completeJob\<close> rolls back and rejects, and the balances stay 5 and \<open>2 ^ 31 - 1\<close>,
  where \<open>max (c - d) 0\<close> is 0 and \<open>2 ^ 31\<close>.
\<close>

theorem debit_outside_integer_range_is_refused:
  "(let w = \<lparr>store = \<lparr>render_jobs =
                 [\<lparr>job_id = ''j2'', status = Rendering, user_id = 7,
                   input_props = \<lparr>durationInFrames = 1800, fps = 30\<rparr>, progress = 0,
                   output_url = None, error = None, created_at = 10, started_at = Some 20,
                   completed_at = None\<rparr>],
               users = [\<lparr>usr_id = 7, credits = 5, updated_at = 0\<rparr>,
                        \<lparr>usr_id = 8, credits = 2147483647, updated_at = 0\<rparr>]\<rparr>,
             txn = None, faults = [], console = []\<rparr>
    in isl (fst (completeJob ''j2'' ''renders/j2.mp4'' 7 (Some 2147483648) 50 w)) \<and>
       map credits (users (store (snd
         (completeJob ''j2'' ''renders/j2.mp4'' 7 (Some 2147483648) 50 w)))) = [5, 2147483647] \<and>
       map status (render_jobs (store (snd
         (completeJob ''j2'' ''renders/j2.mp4'' 7 (Some 2147483648) 50 w)))) = [Rendering] \<and>
       max (5 - 2147483648) 0 = (0::int) \<and>
       isl (fst (completeJob ''j2'' ''renders/j2.mp4'' 8 (Some (- 1)) 50 w)) \<and>
       map credits (users (store (snd
         (completeJob ''j2'' ''renders/j2.mp4'' 8 (Some (- 1)) 50 w)))) = [5, 2147483647] \<and>
       max (2147483647 - (- 1)) 0 = (2147483648::int))"
  by (simp add: run_simps Let_def)

subsection \<open>Claiming the oldest queued job that is not locked\<close>


lemma sort_key_Nil_iff: "sort_key f ys = [] \<longleftrightarrow> ys = []"
  using length_sort [of f ys] by (metis length_0_conv)

lemma oldest_unlocked_none:
  "oldest_unlocked locked db = [] \<longleftrightarrow>
     (\<forall>j\<in>set (render_jobs db). status j = Queued \<longrightarrow> job_id j \<in> set locked)"
proof -
  have "oldest_unlocked locked db = [] \<longleftrightarrow>
        filter (\<lambda>j. status j = Queued \<and> job_id j \<notin> set locked) (render_jobs db) = []"
    unfolding oldest_unlocked_def by (simp add: sort_key_Nil_iff)
  also have "\<dots> \<longleftrightarrow> (\<forall>j\<in>set (render_jobs db). status j = Queued \<longrightarrow> job_id j \<in> set locked)"
    unfolding filter_empty_conv by blast
  finally show ?thesis .
qed

lemma oldest_unlocked_oldest:
  assumes "oldest_unlocked locked db = job # rest"
  shows "rest = []" and "job \<in> set (render_jobs db)" and "status job = Queued"
    and "job_id job \<notin> set locked"
    and "\<And>j. j \<in> set (render_jobs db) \<Longrightarrow> status j = Queued \<Longrightarrow> job_id j \<notin> set locked \<Longrightarrow>
           created_at job \<le> created_at j"
proof -
  let ?queued = "filter (\<lambda>j. status j = Queued \<and> job_id j \<notin> set locked) (render_jobs db)"
  let ?sorted = "sort_key created_at ?queued"
  from assms have take: "take 1 ?sorted = job # rest"
    by (simp add: oldest_unlocked_def)
  then obtain others where sorted: "?sorted = job # others" and rest: "rest = []"
    by (cases ?sorted) auto
  from rest show "rest = []" .
  have "job \<in> set ?sorted"
    by (simp add: sorted)
  then have mem: "job \<in> set ?queued"
    by (simp only: set_sort)
  then show "job \<in> set (render_jobs db)" and "status job = Queued" and "job_id job \<notin> set locked"
    by simp_all
  fix j assume "j \<in> set (render_jobs db)" and "status j = Queued" and "job_id j \<notin> set locked"
  then have "j \<in> set ?queued" by simp
  then have "j \<in> set ?sorted" by (simp only: set_sort)
  moreover have "sorted (map created_at ?sorted)"
    by (rule sorted_sort_key)
  ultimately show "created_at job \<le> created_at j"
    unfolding sorted by auto
qed







subsection \<open>A failed job is not charged\<close>

lemma safeQuery_cases:
  assumes run: "safeQuery stmt w = (r, w')"
  shows "console w' = console w \<and> (txn w' = None \<longleftrightarrow> txn w = None) \<and>
         (case r of
            Inl e \<Rightarrow> store w' = store w
          | Inr v \<Rightarrow> (txn w \<noteq> None \<and> store w' = store w) \<or>
              (txn w = None \<and> (\<exists>d. stmt (store w) = Inr (v, d) \<and> store w' = d)))"
proof -
  define S C T where "S = store w" and "C = console w" and "T = txn w"
  let ?I = "\<lambda>w. store w = S \<and> console w = C \<and> (txn w = None \<longleftrightarrow> T = None)"
  let ?Q = "\<lambda>v w. console w = C \<and> (txn w = None \<longleftrightarrow> T = None) \<and>
              ((T \<noteq> None \<and> store w = S) \<or> (T = None \<and> (\<exists>d. stmt S = Inr (v, d) \<and> store w = d)))"
  have op: "ensures ?I (await getClient (\<lambda>_. try_finally (client_query stmt) release)) ?Q ?I"
  proof (rule ensuresI)
    fix v r v'
    assume pre: "?I v"
      and run: "await getClient (\<lambda>_. try_finally (client_query stmt) release) v = (r, v')"
    obtain r0 v0 where gc: "getClient v = (r0, v0)" by (cases "getClient v")
    note c = getClient_cases [OF gc]
    show "case r of Inr x \<Rightarrow> ?Q x v' | Inl e \<Rightarrow> ?I v'"
    proof (cases r0)
      case (Inl e)
      with run gc have "r = Inl e" "v' = v0"
        by (simp_all add: await_def)
      with c pre show ?thesis by simp
    next
      case (Inr u)
      with run gc have query: "client_query stmt v0 = (r, v')"
        by (simp add: await_def try_finally_def release_def split: prod.splits sum.splits)
      from c pre have pre0: "?I v0" by simp
      show ?thesis
      proof (cases "txn v0")
        case None
        with query pre0 show ?thesis
          unfolding client_query_def round_trip_eq
          by (cases "stmt S")
            (auto simp: abort_block_def split: list.splits option.splits sum.splits)
      next
        case (Some t)
        with query pre0 show ?thesis
          unfolding client_query_def round_trip_eq
          by (cases t; cases "stmt (case t of Open d \<Rightarrow> d | Aborted \<Rightarrow> S)")
            (auto simp: abort_block_def split: list.splits option.splits sum.splits)
      qed
    qed
  qed
  have "ensures ?I (safeQuery stmt) ?Q ?I"
    unfolding safeQuery_def by (rule ensures_retrying) (rule op)
  from ensuresD [OF this _ run] show ?thesis
    by (cases r) (auto simp: S_def C_def T_def)
qed

lemma failJob_cases:
  "(store (failJob jobId msg w) = set_failed (take 1000 msg) jobId (store w) \<or>
    store (failJob jobId msg w) = store w)"
proof -
  obtain r w' where run: "safeQuery (update_failed (take 1000 msg) jobId) w = (r, w')"
    by (cases "safeQuery (update_failed (take 1000 msg) jobId) w")
  from safeQuery_cases [OF run] run show ?thesis
    by (cases r) (auto simp: failJob_def update_failed_def)
qed

lemma users_failJob: "users (store (failJob jobId msg w)) = users (store w)"
  using failJob_cases [of jobId msg w] by (auto simp: set_failed_def)

lemma completeJob_frame:
  assumes "completeJob jobId url userId cd now w = (r, w')"
  shows "(r = Inr () \<and>
           (\<exists>S. store w' = debit (the cd) userId now (set_completed url jobId now S))) \<or>
         ((\<exists>e. r = Inl e) \<and> store w' = store w)"
proof -
  have "state_is (store w) (txn w) (console w) None w"
    by (simp add: state_is_def bounded_failures_def)
  from ensuresD [OF completeJob_ensures this assms] show ?thesis
    by (cases r) (auto simp: state_is_def rolled_back_def)
qed

lemma processJob_cases:
  "(users (store (processJob job run now w)) = users (store w)) \<or>
   (composition_error run = None \<and> render_error run = None \<and> upload_error run = None \<and>
    (\<exists>S amount. store (processJob job run now w) =
        debit amount (user_id job) now
          (set_completed (''renders/'' @ job_id job @ ''.mp4'') (job_id job) now S)))"
proof -
  obtain r1 issued where render: "renderJob job run = (r1, issued)"
    by (cases "renderJob job run")
  show ?thesis
  proof (cases r1)
    case (Inl err)
    with render have "processJob job run now w =
        failJob (job_id job) err (w\<lparr>console := console w @ [''Failed '' @ job_id job]\<rparr>)"
      by (simp add: processJob_def)
    then show ?thesis
      by (simp add: users_failJob)
  next
    case (Inr outputFile)
    with render have errors: "composition_error run = None" "render_error run = None"
      by (auto simp: renderJob_def split: option.splits prod.splits)
    show ?thesis
    proof (cases "upload_error run")
      case (Some err)
      with Inr render have "processJob job run now w =
          failJob (job_id job) err (w\<lparr>console := console w @ [''Failed '' @ job_id job]\<rparr>)"
        by (simp add: processJob_def uploadToStorage_def await_def reject_def cleanupFile_def)
      then show ?thesis
        by (simp add: users_failJob)
    next
      case None
      let ?url = "''renders/'' @ job_id job @ ''.mp4''"
      obtain r2 w2 where complete:
        "completeJob (job_id job) ?url (user_id job) (creditsToDeduct_of (input_props job)) now w
          = (r2, w2)"
        by (cases "completeJob (job_id job) ?url (user_id job)
              (creditsToDeduct_of (input_props job)) now w")
      from completeJob_frame [OF complete]
      show ?thesis
      proof (elim disjE conjE exE)
        fix S
        assume "r2 = Inr ()"
          and "store w2 = debit (the (creditsToDeduct_of (input_props job))) (user_id job) now
                 (set_completed ?url (job_id job) now S)"
        moreover from this(1) Inr render None complete have "processJob job run now w = w2"
          by (simp add: processJob_def uploadToStorage_def await_def resolve_def cleanupFile_def)
        ultimately show ?thesis
          using errors None by auto
      next
        fix e
        assume "r2 = Inl e" and same: "store w2 = store w"
        with Inr render None complete have "processJob job run now w =
            failJob (job_id job) e (w2\<lparr>console := console w2 @ [''Failed '' @ job_id job]\<rparr>)"
          by (simp add: processJob_def uploadToStorage_def await_def resolve_def cleanupFile_def)
        with same show ?thesis
          by (simp add: users_failJob)
      qed
    qed
  qed
qed

text \<open>
  Claim C5.  \<open>failJob\<close> leaves the ledger as it is and either writes nothing or sets,
  in the rows with the job's id, the status to \<open>failed\<close> and the error to the message cut
  to 1000 characters, and nothing else.  For \<open>processJob\<close>: when the composition, the
  render or the upload fails, and whenever a row of the job has status \<open>failed\<close> after the
  call, the ledger after the call is the ledger before it, whatever round trips failed
  on the way.
\<close>

theorem failed_job_not_charged:
  "users (store (failJob jobId msg w)) = users (store w) \<and>
   (render_jobs (store (failJob jobId msg w)) = render_jobs (store w) \<or>
    render_jobs (store (failJob jobId msg w)) =
      map (\<lambda>j. if job_id j = jobId then j\<lparr>status := Failed, error := Some (take 1000 msg)\<rparr> else j)
        (render_jobs (store w))) \<and>
   (composition_error run \<noteq> None \<or> render_error run \<noteq> None \<or> upload_error run \<noteq> None \<longrightarrow>
      users (store (processJob job run now w)) = users (store w)) \<and>
   ((\<exists>j\<in>set (render_jobs (store (processJob job run now w))).
        job_id j = job_id job \<and> status j = Failed) \<longrightarrow>
      users (store (processJob job run now w)) = users (store w))"
proof -
  have rows: "render_jobs (store (failJob jobId msg w)) = render_jobs (store w) \<or>
    render_jobs (store (failJob jobId msg w)) =
      map (\<lambda>j. if job_id j = jobId then j\<lparr>status := Failed, error := Some (take 1000 msg)\<rparr> else j)
        (render_jobs (store w))"
    using failJob_cases [of jobId msg w] by (auto simp: set_failed_def)
  have errors: "users (store (processJob job run now w)) = users (store w)"
    if "composition_error run \<noteq> None \<or> render_error run \<noteq> None \<or> upload_error run \<noteq> None"
    using processJob_cases [of job run now w] that by blast
  have failed: "users (store (processJob job run now w)) = users (store w)"
    if "\<exists>j\<in>set (render_jobs (store (processJob job run now w))).
          job_id j = job_id job \<and> status j = Failed"
  proof (rule ccontr)
    assume "users (store (processJob job run now w)) \<noteq> users (store w)"
    with processJob_cases [of job run now w] obtain S amount where
      "store (processJob job run now w) =
        debit amount (user_id job) now
          (set_completed (''renders/'' @ job_id job @ ''.mp4'') (job_id job) now S)"
      by blast
    then have rows: "render_jobs (store (processJob job run now w)) =
        map (\<lambda>j. if job_id j = job_id job
                 then j\<lparr>status := Completed,
                        output_url := Some (''renders/'' @ job_id job @ ''.mp4''),
                        progress := 1, completed_at := Some now\<rparr>
                 else j) (render_jobs S)"
      by (simp only: render_jobs_debit_completed)
    from that obtain j where j: "j \<in> set (render_jobs (store (processJob job run now w)))"
      "job_id j = job_id job" "status j = Failed"
      by blast
    from j(1) have "status j = Completed"
      unfolding rows using j(2) by (rule completed_rows)
    with j(3) show False by simp
  qed
  from users_failJob [of jobId msg w] rows errors failed show ?thesis
    by (intro conjI impI)
qed

theorem failed_job_not_charged_witness:
  "(let job = \<lparr>job_id = ''j2'', status = Rendering, user_id = 9,
                input_props = \<lparr>durationInFrames = 1800, fps = 30\<rparr>, progress = 0,
                output_url = None, error = None, created_at = 10, started_at = Some 20,
                completed_at = None\<rparr>;
        w = \<lparr>store = \<lparr>render_jobs = [job], users = [\<lparr>usr_id = 9, credits = 0, updated_at = 0\<rparr>]\<rparr>,
             txn = None, faults = [], console = []\<rparr>;
        run = \<lparr>cwd = ''/srv/worker'', TEMP_RENDER_DIR = None, composition_error = None,
               progress_calls = [(6000, 1 / 4)],
               render_error = Some ''render crashed'', upload_error = None\<rparr>
    in users (store (processJob job run 50 w)) = [\<lparr>usr_id = 9, credits = 0, updated_at = 0\<rparr>] \<and>
       map status (render_jobs (store (processJob job run 50 w))) = [Failed] \<and>
       map error (render_jobs (store (processJob job run 50 w))) = [Some ''render crashed''])"
proof -
  define job where "job = \<lparr>job_id = ''j2'', status = Rendering, user_id = 9,
                input_props = \<lparr>durationInFrames = 1800, fps = 30\<rparr>, progress = 0 :: rat,
                output_url = None :: string option, error = None :: string option,
                created_at = 10, started_at = Some 20, completed_at = None :: int option\<rparr>"
  define w where "w = \<lparr>store = \<lparr>render_jobs = [job],
                 users = [\<lparr>usr_id = 9, credits = 0, updated_at = 0\<rparr>]\<rparr>,
             txn = None, faults = [], console = []\<rparr>"
  define run where "run = \<lparr>cwd = ''/srv/worker'', TEMP_RENDER_DIR = None :: string option,
               composition_error = None, progress_calls = [(6000 :: int, 1 / 4 :: rat)],
               render_error = Some ''render crashed'', upload_error = None\<rparr>"
  have rendered: "fst (renderJob job run) = Inl ''render crashed''"
    by (simp add: renderJob_def run_def split: prod.splits)
  have rows: "render_jobs (store (processJob job run 50 w)) =
      [job\<lparr>status := Failed, error := Some ''render crashed''\<rparr>]"
    using rendered
    by (cases "renderJob job run")
      (simp add: processJob_def w_def run_simps withRetry_from_resolved job_def)
  from failed_job_not_charged [of "''j2''" "''render crashed''" w run job 50]
  have "users (store (processJob job run 50 w)) = users (store w)"
    by (simp add: run_def)
  with rows show ?thesis
    unfolding Let_def job_def [symmetric] w_def [symmetric] run_def [symmetric]
    by (simp add: w_def job_def)
qed

subsection \<open>Progress writes are throttled and never abort the render\<close>

lemma onProgress_cases:
  assumes "onProgress (now, fraction) (th, issued) = (th', issued')"
  shows "(th' = th \<and> issued' = issued) \<or>
         (PROGRESS_UPDATE_INTERVAL_MS < now - lastProgressUpdate th \<and>
          progressRounded fraction \<noteq> lastProgressValue th \<and>
          th' = \<lparr>lastProgressUpdate = now, lastProgressValue = progressRounded fraction\<rparr> \<and>
          issued' = issued @ [(now, progressRounded fraction)])"
  using assms by (auto simp: onProgress_def split: if_splits)

lemma progress_calls_throttled:
  assumes "foldl (\<lambda>acc call. onProgress call acc) (th, issued) calls = (th', issued')"
  shows "\<exists>new. issued' = issued @ new \<and>
      throttled (lastProgressUpdate th) (lastProgressValue th) new \<and>
      set new \<subseteq> (\<lambda>(now, fraction). (now, progressRounded fraction)) ` set calls"
  using assms
proof (induction calls arbitrary: th issued)
  case Nil
  then show ?case by simp
next
  case (Cons call calls)
  let ?round = "\<lambda>(now, fraction). (now, progressRounded fraction)"
  obtain now fraction where call: "call = (now, fraction)"
    by (cases call)
  obtain th1 issued1 where step: "onProgress (now, fraction) (th, issued) = (th1, issued1)"
    by (cases "onProgress (now, fraction) (th, issued)")
  with Cons.prems call have "foldl (\<lambda>acc call. onProgress call acc) (th1, issued1) calls
      = (th', issued')"
    by simp
  from Cons.IH [OF this] obtain new where rest:
    "issued' = issued1 @ new"
    "throttled (lastProgressUpdate th1) (lastProgressValue th1) new"
    "set new \<subseteq> ?round ` set calls"
    by blast
  let ?v = "progressRounded fraction"
  from onProgress_cases [OF step]
  consider (skip) "th1 = th" "issued1 = issued"
    | (issue) "PROGRESS_UPDATE_INTERVAL_MS < now - lastProgressUpdate th"
      "?v \<noteq> lastProgressValue th"
      "th1 = \<lparr>lastProgressUpdate = now, lastProgressValue = ?v\<rparr>"
      "issued1 = issued @ [(now, ?v)]"
    by blast
  then show ?case
  proof cases
    case skip
    with rest call show ?thesis
      by (intro exI [of _ new]) auto
  next
    case issue
    have "issued' = issued @ ((now, ?v) # new)"
      using rest(1) issue(4) by simp
    moreover have "throttled (lastProgressUpdate th) (lastProgressValue th) ((now, ?v) # new)"
      using rest(2) issue(1,2,3) by simp
    moreover have "set ((now, ?v) # new) \<subseteq> ?round ` set (call # calls)"
      using rest(3) call by auto
    ultimately show ?thesis by blast
  qed
qed

lemma progress_write_cases:
  "users (store (progress_write jobId fraction w)) = users (store w) \<and>
   (store (progress_write jobId fraction w) = store w \<or>
    txn w = None \<and> store (progress_write jobId fraction w) = set_progress fraction jobId (store w)) \<and>
   (console (progress_write jobId fraction w) = console w \<or>
    store (progress_write jobId fraction w) = store w \<and>
    (\<exists>err. console (progress_write jobId fraction w) =
       console w @ [progress_failure_line jobId err]))"
proof -
  obtain r w' where run: "safeQuery (update_progress fraction jobId) w = (r, w')"
    by (cases "safeQuery (update_progress fraction jobId) w")
  have ledger: "users (set_progress fraction jobId d) = users d" for d
    by (simp add: set_progress_def)
  from safeQuery_cases [OF run] run ledger show ?thesis
    by (cases r) (auto simp: progress_write_def update_progress_def)
qed

lemma progress_write_keeps_status:
  "map status (render_jobs (store (progress_write jobId fraction w))) =
   map status (render_jobs (store w))"
proof -
  have "map status (render_jobs (set_progress fraction jobId d)) = map status (render_jobs d)" for d
    by (simp add: set_progress_def comp_def if_distrib cong: if_cong)
  with progress_write_cases [of jobId fraction w] show ?thesis
    by auto
qed

text \<open>
  Claim C7.  The writes the callbacks of \<open>renderJob\<close> hand to \<open>safeQuery\<close> are
  throttled: each is issued more than \<open>PROGRESS_UPDATE_INTERVAL_MS\<close> (5000 ms) after
  the write before it, so at least that long, and writes a value different from the one
  written before it (the first one is compared with time 0 and value 0); every value
  written is the fraction of a callback rounded to two decimals as the code rounds it,
  in double arithmetic.  No write reaches the render: the result of \<open>renderJob\<close> is
  decided by the composition and the render alone, and a write, whenever it runs and
  whatever round trips fail, ends without an error, leaves the ledger as it is, and
  either sets the progress of the job's rows or changes no row; when it fails it leaves
  the store as it is and logs one line.
\<close>

theorem progress_writes_throttled:
  assumes "renderJob job run = (r, issued)"
  shows "throttled 0 0 issued \<and>
    PROGRESS_UPDATE_INTERVAL_MS = 5000 \<and>
    set issued \<subseteq> (\<lambda>(now, fraction). (now, progressRounded fraction)) ` set (progress_calls run) \<and>
    r = (case composition_error run of
           Some err \<Rightarrow> Inl err
         | None \<Rightarrow>
             (case render_error run of
                Some err \<Rightarrow> Inl err
              | None \<Rightarrow> Inr (path_join (TEMP_DIR run) (job_id job @ ''.mp4'')))) \<and>
    (\<forall>fraction w.
       users (store (progress_write (job_id job) fraction w)) = users (store w) \<and>
       (store (progress_write (job_id job) fraction w) = store w \<or>
        txn w = None \<and>
        store (progress_write (job_id job) fraction w) = set_progress fraction (job_id job) (store w)) \<and>
       (console (progress_write (job_id job) fraction w) = console w \<or>
        store (progress_write (job_id job) fraction w) = store w \<and>
        (\<exists>err. console (progress_write (job_id job) fraction w) =
           console w @ [progress_failure_line (job_id job) err])))"
proof (cases "composition_error run")
  case (Some err)
  with assms progress_write_cases show ?thesis
    by (simp add: renderJob_def PROGRESS_UPDATE_INTERVAL_MS_def)
next
  case None
  obtain th1 issued1 where fold:
    "foldl (\<lambda>acc call. onProgress call acc)
       (\<lparr>lastProgressUpdate = 0, lastProgressValue = 0\<rparr>, []) (progress_calls run)
     = (th1, issued1)"
    by (cases "foldl (\<lambda>acc call. onProgress call acc)
       (\<lparr>lastProgressUpdate = 0, lastProgressValue = 0\<rparr>, []) (progress_calls run)")
  with assms None have res: "issued = issued1"
    "r = (case render_error run of
            Some err \<Rightarrow> Inl err
          | None \<Rightarrow> Inr (path_join (TEMP_DIR run) (job_id job @ ''.mp4'')))"
    by (auto simp: renderJob_def split: option.splits)
  from progress_calls_throttled [OF fold] res(1)
  have "throttled 0 0 issued"
    "set issued \<subseteq> (\<lambda>(now, fraction). (now, progressRounded fraction)) ` set (progress_calls run)"
    by auto
  with res(2) None progress_write_cases show ?thesis
    by (simp add: PROGRESS_UPDATE_INTERVAL_MS_def)
qed

lemma rounded_examples:
  "progressRounded (double_of (3 / 200)) = double_of (1 / 50)"
  "progressRounded (1 / 2) = 1 / 2"
  "progressRounded (double_of (1 / 50)) = double_of (1 / 50)"
  "progressRounded (double_of (31 / 200)) = double_of (4 / 25)"
  "double_of (1 / 50) \<noteq> 0"
  "double_of (4 / 25) \<noteq> double_of (1 / 50)"
  by code_simp+

lemma resolved_example:
  "path_join (path_resolve ''/srv/worker'' ''./out/../tmp'') ''j7.mp4'' = ''/srv/worker/tmp/j7.mp4''"
  by code_simp

theorem progress_writes_throttled_witness:
  "(let job = \<lparr>job_id = ''j7'', status = Rendering, user_id = 9,
                input_props = \<lparr>durationInFrames = 1800, fps = 30\<rparr>, progress = 0,
                output_url = None, error = None, created_at = 10, started_at = Some 20,
                completed_at = None\<rparr>;
        w = \<lparr>store = \<lparr>render_jobs = [job], users = []\<rparr>, txn = None,
             faults = replicate 9 (Some ''ECONNRESET''), console = []\<rparr>;
        run = \<lparr>cwd = ''/srv/worker'', TEMP_RENDER_DIR = Some ''./out/../tmp'',
               composition_error = None,
               progress_calls = [(6000, double_of (3 / 200)), (7000, 1 / 2),
                  (12000, double_of (1 / 50)), (12001, double_of (31 / 200))],
               render_error = None, upload_error = None\<rparr>
    in renderJob job run =
         (Inr ''/srv/worker/tmp/j7.mp4'', [(6000, double_of (1 / 50)), (12001, double_of (4 / 25))]) \<and>
       throttled 0 0 (snd (renderJob job run)) \<and>
       store (progress_write ''j7'' (double_of (1 / 50)) w) = store w \<and>
       console (progress_write ''j7'' (double_of (1 / 50)) w) =
         [progress_failure_line ''j7''
            ''Database query failed after 3 attempts: Database connection failed after 3 attempts: ECONNRESET''] \<and>
       map progress (render_jobs (store
         (progress_write ''j7'' (double_of (4 / 25)) (w\<lparr>faults := []\<rparr>)))) = [double_of (4 / 25)])"
proof -
  define job where "job = \<lparr>job_id = ''j7'', status = Rendering, user_id = 9,
                input_props = \<lparr>durationInFrames = 1800, fps = 30\<rparr>, progress = 0 :: rat,
                output_url = None :: string option, error = None :: string option,
                created_at = 10, started_at = Some 20, completed_at = None :: int option\<rparr>"
  define w where "w = \<lparr>store = \<lparr>render_jobs = [job], users = []\<rparr>, txn = None,
             faults = replicate 9 (Some ''ECONNRESET''), console = []\<rparr>"
  define run where "run = \<lparr>cwd = ''/srv/worker'', TEMP_RENDER_DIR = Some ''./out/../tmp'',
               composition_error = None,
               progress_calls = [(6000 :: int, double_of (3 / 200)), (7000, 1 / 2),
                  (12000, double_of (1 / 50)), (12001, double_of (31 / 200))],
               render_error = None, upload_error = None\<rparr>"
  define line where "line = progress_failure_line ''j7''
     ''Database query failed after 3 attempts: Database connection failed after 3 attempts: ECONNRESET''"
  have jid: "job_id job = ''j7''"
    by (simp add: job_def)
  have run_eq: "renderJob job run =
      (Inr ''/srv/worker/tmp/j7.mp4'', [(6000, double_of (1 / 50)), (12001, double_of (4 / 25))])"
    unfolding renderJob_def run_def
    by (simp add: onProgress_def rounded_examples PROGRESS_UPDATE_INTERVAL_MS_def TEMP_DIR_def
        resolved_example jid)
  note claim = progress_writes_throttled [OF run_eq]
  from claim have first: "throttled 0 0 [(6000, double_of (1 / 50)), (12001, double_of (4 / 25))]"
    by blast
  have failing: "console (progress_write ''j7'' (double_of (1 / 50)) w) = [line]"
    by (simp add: w_def line_def progress_write_def safeQuery_def retrying_def withRetry_def
        withRetry_from.simps DB_RETRY_ATTEMPTS_def DB_RETRY_DELAY_MS_def getClient_def
        pool_connect_def round_trip_def await_def exhausted_message_def js_number_def
        string_of_nat.simps digit_char_def numeral_eq_Suc)
  have "console (progress_write ''j7'' (double_of (1 / 50)) w) \<noteq> console w"
    by (simp add: failing) (simp add: w_def)
  with claim jid have second: "store (progress_write ''j7'' (double_of (1 / 50)) w) = store w"
    by metis
  have third: "map progress (render_jobs (store
      (progress_write ''j7'' (double_of (4 / 25)) (w\<lparr>faults := []\<rparr>)))) = [double_of (4 / 25)]"
    by (simp add: w_def run_simps withRetry_from_resolved job_def)
  from run_eq first second failing third show ?thesis
    unfolding Let_def job_def [symmetric] w_def [symmetric] run_def [symmetric] line_def [symmetric]
    by simp
qed

subsection \<open>Invariants of the in-memory render queue\<close>

lemma queue_run_snoc: "queue_run port (es @ [e]) q = queue_step port (queue_run port es q) e"
  by (simp add: queue_run_def)

lemma queue_run_append: "queue_run port (es @ es') q = queue_run port es' (queue_run port es q)"
  by (simp add: queue_run_def)

lemma created_ids_append: "created_ids (es @ es') = created_ids es @ created_ids es'"
  by (induction es rule: created_ids.induct) simp_all

lemma processRender_begin_order:
  "started (processRender_begin jobId q) = started q @ [jobId] \<and>
   pending (processRender_begin jobId q) = pending q"
  by (simp add: processRender_begin_def split: option.splits)

lemma chain_next_order: "started (chain_next q) @ pending (chain_next q) = started q @ pending q"
  by (simp add: chain_next_def processRender_begin_order split: list.splits)

lemma queue_step_order:
  "started (queue_step port q e) @ pending (queue_step port q e) =
     started q @ pending q @ created_ids [e]"
proof (cases e)
  case (Create uuid d)
  then show ?thesis
    using chain_next_order [of "q\<lparr>jobs := (jobs q)(uuid \<mapsto> JobQueued d (Delete_job uuid)),
                   pending := pending q @ [uuid]\<rparr>"]
    by (simp add: createJob_def queueRender_def)
next
  case (Cancel jobId)
  have "started (call_cancel c q) = started q \<and> pending (call_cancel c q) = pending q" for c
    by (cases c) simp_all
  with Cancel show ?thesis
    by (simp add: delete_render_def split: option.splits JobState.splits)
next
  case (Progress p)
  then show ?thesis
    by (simp add: render_progress_def split: option.splits prod.splits)
next
  case Resolve
  show ?thesis
  proof (cases "running q")
    case None
    with Resolve show ?thesis by (simp add: render_resolved_def)
  next
    case (Some r)
    obtain jobId d where "r = (jobId, d)" by (cases r)
    with Some Resolve show ?thesis
      using chain_next_order [of "q\<lparr>jobs := (jobs q)(jobId \<mapsto>
          JobCompleted (''http://localhost:'' @ js_number port @ ''/renders/'' @ jobId @ ''.mp4'') d),
          running := None\<rparr>"]
      by (simp add: render_resolved_def)
  qed
next
  case (Reject err)
  show ?thesis
  proof (cases "running q")
    case None
    with Reject show ?thesis by (simp add: render_rejected_def)
  next
    case (Some r)
    obtain jobId d where "r = (jobId, d)" by (cases r)
    with Some Reject show ?thesis
      using chain_next_order [of "q\<lparr>jobs := (jobs q)(jobId \<mapsto> JobFailed err d), running := None\<rparr>"]
      by (simp add: render_rejected_def)
  qed
qed

lemma queue_run_order:
  "started (queue_run port es q) @ pending (queue_run port es q) =
     started q @ pending q @ created_ids es"
proof (induction es rule: rev_induct)
  case Nil
  then show ?case by (simp add: queue_run_def)
next
  case (snoc e es)
  then show ?case
    by (simp add: queue_run_snoc queue_step_order created_ids_append)
qed


lemma registry_invI:
  assumes "distinct (started q @ pending q)"
    and "\<And>jobId. jobs q jobId \<noteq> None \<Longrightarrow> jobId \<in> set (started q @ pending q)"
    and "\<And>jobId d c. jobs q jobId = Some (JobQueued d c) \<Longrightarrow>
           c = Delete_job jobId \<and> jobId \<in> set (pending q)"
    and "\<And>jobId p d c. jobs q jobId = Some (JobInProgress p d c) \<Longrightarrow>
           c = Cancel_signal \<and> running q = Some (jobId, d)"
    and "\<And>jobId d. running q = Some (jobId, d) \<Longrightarrow>
           is_in_progress (jobs q jobId) \<and> jobId \<in> set (started q)"
    and "chain_error q \<noteq> None \<Longrightarrow> running q = None"
  shows "registry_inv q"
  unfolding registry_inv_def using assms by blast

lemma registry_invD:
  assumes "registry_inv q"
  shows "distinct (started q @ pending q)"
    and "\<And>jobId. jobs q jobId \<noteq> None \<Longrightarrow> jobId \<in> set (started q @ pending q)"
    and "\<And>jobId d c. jobs q jobId = Some (JobQueued d c) \<Longrightarrow>
           c = Delete_job jobId \<and> jobId \<in> set (pending q)"
    and "\<And>jobId p d c. jobs q jobId = Some (JobInProgress p d c) \<Longrightarrow>
           c = Cancel_signal \<and> running q = Some (jobId, d)"
    and "\<And>jobId d. running q = Some (jobId, d) \<Longrightarrow>
           is_in_progress (jobs q jobId) \<and> jobId \<in> set (started q)"
    and "chain_error q \<noteq> None \<Longrightarrow> running q = None"
  using assms unfolding registry_inv_def by blast+

lemma chain_next_inv:
  assumes inv: "registry_inv q"
  shows "queue_inv (chain_next q)"
proof (cases "running q = None \<and> chain_error q = None")
  case False
  with inv show ?thesis
    by (auto simp: chain_next_def queue_inv_def)
next
  case idle: True
  note D = registry_invD [OF inv]
  show ?thesis
  proof (cases "pending q")
    case Nil
    with idle inv show ?thesis
      by (simp add: chain_next_def queue_inv_def)
  next
    case (Cons h rest)
    from D(1) Cons have fresh: "h \<notin> set (started q)" "h \<notin> set rest" "distinct (started q @ rest)"
      by auto
    have no_progress: "\<not> is_in_progress (jobs q jobId)" for jobId
    proof
      assume "is_in_progress (jobs q jobId)"
      then obtain p d c where "jobs q jobId = Some (JobInProgress p d c)"
        by (cases "jobs q jobId" rule: is_in_progress.cases) auto
      with D(4) idle show False by fastforce
    qed
    show ?thesis
    proof (cases "jobs q h")
      case None
      let ?q' = "q\<lparr>pending := rest, chain_error := Some (not_found_message h),
                    started := started q @ [h]\<rparr>"
      from idle Cons None have next_eq: "chain_next q = ?q'"
        by (simp add: chain_next_def processRender_begin_def)
      have "registry_inv ?q'"
      proof (rule registry_invI)
        show "distinct (started ?q' @ pending ?q')"
          using fresh by simp
        show "jobId \<in> set (started ?q' @ pending ?q')" if "jobs ?q' jobId \<noteq> None" for jobId
          using D(2) [of jobId] that Cons by auto
        show "c = Delete_job jobId \<and> jobId \<in> set (pending ?q')"
          if "jobs ?q' jobId = Some (JobQueued d c)" for jobId d c
          using D(3) [of jobId d c] that Cons None by auto
        show "c = Cancel_signal \<and> running ?q' = Some (jobId, d)"
          if "jobs ?q' jobId = Some (JobInProgress p d c)" for jobId p d c
          using D(4) [of jobId p d c] that by simp
        show "is_in_progress (jobs ?q' jobId) \<and> jobId \<in> set (started ?q')"
          if "running ?q' = Some (jobId, d)" for jobId d
          using that idle by simp
        show "running ?q' = None" using idle by simp
      qed
      then show ?thesis
        unfolding next_eq by (simp add: queue_inv_def)
    next
      case (Some job)
      let ?q' = "q\<lparr>pending := rest,
                    jobs := (jobs q)(h \<mapsto> JobInProgress 0 (data_of job) Cancel_signal),
                    running := Some (h, data_of job), signalled := False,
                    started := started q @ [h]\<rparr>"
      from idle Cons Some have next_eq: "chain_next q = ?q'"
        by (simp add: chain_next_def processRender_begin_def)
      have "registry_inv ?q'"
      proof (rule registry_invI)
        show "distinct (started ?q' @ pending ?q')"
          using fresh by simp
        show "jobId \<in> set (started ?q' @ pending ?q')" if "jobs ?q' jobId \<noteq> None" for jobId
          using D(2) [of jobId] that Cons by (cases "jobId = h") auto
        show "c = Delete_job jobId \<and> jobId \<in> set (pending ?q')"
          if "jobs ?q' jobId = Some (JobQueued d c)" for jobId d c
          using D(3) [of jobId d c] that Cons by (cases "jobId = h") auto
        show "c = Cancel_signal \<and> running ?q' = Some (jobId, d)"
          if "jobs ?q' jobId = Some (JobInProgress p d c)" for jobId p d c
        proof (cases "jobId = h")
          case True
          with that show ?thesis by simp
        next
          case False
          with that have "is_in_progress (jobs q jobId)" by simp
          with no_progress show ?thesis by blast
        qed
        show "is_in_progress (jobs ?q' jobId) \<and> jobId \<in> set (started ?q')"
          if "running ?q' = Some (jobId, d)" for jobId d
          using that by simp
        show "running ?q' = None" if "chain_error ?q' \<noteq> None"
          using that idle by simp
      qed
      then show ?thesis
        unfolding next_eq by (simp add: queue_inv_def)
    qed
  qed
qed


lemma queue_invD: "queue_inv q \<Longrightarrow> registry_inv q"
  by (simp add: queue_inv_def)

lemma registry_inv_queued:
  assumes inv: "registry_inv q" and fresh: "uuid \<notin> set (started q @ pending q)"
  shows "registry_inv (q\<lparr>jobs := (jobs q)(uuid \<mapsto> JobQueued d (Delete_job uuid)),
                         pending := pending q @ [uuid]\<rparr>)"
    (is "registry_inv ?q'")
proof (rule registry_invI)
  note D = registry_invD [OF inv]
  show "distinct (started ?q' @ pending ?q')"
    using D(1) fresh by simp
  show "jobId \<in> set (started ?q' @ pending ?q')" if "jobs ?q' jobId \<noteq> None" for jobId
    using D(2) [of jobId] that by (cases "jobId = uuid") auto
  show "c = Delete_job jobId \<and> jobId \<in> set (pending ?q')"
    if "jobs ?q' jobId = Some (JobQueued d' c)" for jobId d' c
    using D(3) [of jobId d' c] that by (cases "jobId = uuid") auto
  show "c = Cancel_signal \<and> running ?q' = Some (jobId, d')"
    if "jobs ?q' jobId = Some (JobInProgress p d' c)" for jobId p d' c
    using D(4) [of jobId p d' c] that by (cases "jobId = uuid") auto
  show "is_in_progress (jobs ?q' jobId) \<and> jobId \<in> set (started ?q')"
    if "running ?q' = Some (jobId, d')" for jobId d'
  proof -
    from that D(5) [of jobId d'] have r: "is_in_progress (jobs q jobId)" "jobId \<in> set (started q)"
      by simp_all
    with fresh have "jobId \<noteq> uuid" by auto
    with r show ?thesis by simp
  qed
  show "running ?q' = None" if "chain_error ?q' \<noteq> None"
    using D(6) that by simp
qed

lemma registry_inv_settled:
  assumes inv: "registry_inv q" and run: "running q = Some (r, d)"
    and final: "\<not> is_in_progress (Some job)" "\<not> is_queued (Some job)"
  shows "registry_inv (q\<lparr>jobs := (jobs q)(r \<mapsto> job), running := None\<rparr>)"
    (is "registry_inv ?q'")
proof (rule registry_invI)
  note D = registry_invD [OF inv]
  from D(5) [OF run] have r: "is_in_progress (jobs q r)" "r \<in> set (started q)"
    by simp_all
  from D(6) run have no_error: "chain_error q = None"
    by (cases "chain_error q") auto
  show "distinct (started ?q' @ pending ?q')"
    using D(1) by simp
  show "jobId \<in> set (started ?q' @ pending ?q')" if "jobs ?q' jobId \<noteq> None" for jobId
    using D(2) [of jobId] that r(2) by (cases "jobId = r") auto
  show "c = Delete_job jobId \<and> jobId \<in> set (pending ?q')"
    if "jobs ?q' jobId = Some (JobQueued d' c)" for jobId d' c
    using D(3) [of jobId d' c] that final(2) by (cases "jobId = r") auto
  show "c = Cancel_signal \<and> running ?q' = Some (jobId, d')"
    if "jobs ?q' jobId = Some (JobInProgress p d' c)" for jobId p d' c
  proof (cases "jobId = r")
    case True
    with that final(1) show ?thesis by auto
  next
    case False
    with that D(4) [of jobId p d' c] run show ?thesis by auto
  qed
  show "is_in_progress (jobs ?q' jobId) \<and> jobId \<in> set (started ?q')"
    if "running ?q' = Some (jobId, d')" for jobId d'
    using that by simp
  show "running ?q' = None" if "chain_error ?q' \<noteq> None"
    by simp
qed

lemma call_cancel_inv:
  assumes inv: "queue_inv q"
    and job: "jobs q jobId = Some (JobQueued d c) \<or> jobs q jobId = Some (JobInProgress p d c)"
  shows "queue_inv (call_cancel c q)"
proof -
  note D = registry_invD [OF queue_invD [OF inv]]
  from job show ?thesis
  proof
    assume queued: "jobs q jobId = Some (JobQueued d c)"
    with D(3) have c: "c = Delete_job jobId" by blast
    let ?q' = "q\<lparr>jobs := (jobs q)(jobId := None)\<rparr>"
    have "registry_inv ?q'"
    proof (rule registry_invI)
      show "distinct (started ?q' @ pending ?q')"
        using D(1) by simp
      show "i \<in> set (started ?q' @ pending ?q')" if "jobs ?q' i \<noteq> None" for i
        using D(2) [of i] that by (cases "i = jobId") auto
      show "c' = Delete_job i \<and> i \<in> set (pending ?q')"
        if "jobs ?q' i = Some (JobQueued d' c')" for i d' c'
        using D(3) [of i d' c'] that by (cases "i = jobId") auto
      show "c' = Cancel_signal \<and> running ?q' = Some (i, d')"
        if "jobs ?q' i = Some (JobInProgress p' d' c')" for i p' d' c'
        using D(4) [of i p' d' c'] that by (cases "i = jobId") auto
      show "is_in_progress (jobs ?q' i) \<and> i \<in> set (started ?q')"
        if "running ?q' = Some (i, d')" for i d'
      proof -
        from that D(5) [of i d'] have "is_in_progress (jobs q i)" "i \<in> set (started q)"
          by simp_all
        moreover from this(1) queued have "i \<noteq> jobId" by auto
        ultimately show ?thesis by simp
      qed
      show "running ?q' = None" if "chain_error ?q' \<noteq> None"
        using D(6) that by simp
    qed
    with inv c show ?thesis
      by (simp add: queue_inv_def)
  next
    assume "jobs q jobId = Some (JobInProgress p d c)"
    with D(4) have c: "c = Cancel_signal" by blast
    have "registry_inv (q\<lparr>signalled := True\<rparr>)"
      using queue_invD [OF inv] by (simp add: registry_inv_def)
    with inv c show ?thesis
      by (simp add: queue_inv_def)
  qed
qed

lemma queue_step_inv:
  assumes inv: "queue_inv q"
    and fresh: "\<And>uuid d. e = Create uuid d \<Longrightarrow> uuid \<notin> set (started q @ pending q)"
  shows "queue_inv (queue_step port q e)"
proof (cases e)
  case (Create uuid d)
  from registry_inv_queued [OF queue_invD [OF inv] fresh [OF Create]]
  have "queue_inv (chain_next (q\<lparr>jobs := (jobs q)(uuid \<mapsto> JobQueued d (Delete_job uuid)),
                         pending := pending q @ [uuid]\<rparr>))"
    by (rule chain_next_inv)
  with Create show ?thesis
    by (simp add: createJob_def queueRender_def)
next
  case (Cancel jobId)
  show ?thesis
  proof (cases "jobs q jobId")
    case None
    with Cancel inv show ?thesis by (simp add: delete_render_def)
  next
    case (Some job)
    show ?thesis
    proof (cases job)
      case (JobQueued d c)
      with Some have "queue_inv (call_cancel c q)"
        by (intro call_cancel_inv [OF inv, of jobId d c 0]) simp
      with Cancel Some JobQueued show ?thesis by (simp add: delete_render_def)
    next
      case (JobInProgress p d c)
      with Some have "queue_inv (call_cancel c q)"
        by (intro call_cancel_inv [OF inv, of jobId d c p]) simp
      with Cancel Some JobInProgress show ?thesis by (simp add: delete_render_def)
    next
      case (JobCompleted u d)
      with Cancel Some inv show ?thesis by (simp add: delete_render_def)
    next
      case (JobFailed err d)
      with Cancel Some inv show ?thesis by (simp add: delete_render_def)
    qed
  qed
next
  case (Progress p)
  show ?thesis
  proof (cases "running q")
    case None
    with Progress inv show ?thesis by (simp add: render_progress_def)
  next
    case (Some rd)
    obtain r d where rd: "rd = (r, d)" by (cases rd)
    note D = registry_invD [OF queue_invD [OF inv]]
    from D(5) [of r d] Some rd have r: "is_in_progress (jobs q r)" "r \<in> set (started q)"
      by simp_all
    let ?q' = "q\<lparr>jobs := (jobs q)(r \<mapsto> JobInProgress p d Cancel_signal)\<rparr>"
    have "registry_inv ?q'"
    proof (rule registry_invI)
      show "distinct (started ?q' @ pending ?q')"
        using D(1) by simp
      show "i \<in> set (started ?q' @ pending ?q')" if "jobs ?q' i \<noteq> None" for i
        using D(2) [of i] that r(2) by (cases "i = r") auto
      show "c' = Delete_job i \<and> i \<in> set (pending ?q')"
        if "jobs ?q' i = Some (JobQueued d' c')" for i d' c'
        using D(3) [of i d' c'] that by (cases "i = r") auto
      show "c' = Cancel_signal \<and> running ?q' = Some (i, d')"
        if "jobs ?q' i = Some (JobInProgress p' d' c')" for i p' d' c'
        using D(4) [of i p' d' c'] that Some rd by (cases "i = r") auto
      show "is_in_progress (jobs ?q' i) \<and> i \<in> set (started ?q')"
        if "running ?q' = Some (i, d')" for i d'
        using that Some rd r(2) by auto
      show "running ?q' = None" if "chain_error ?q' \<noteq> None"
        using D(6) that by simp
    qed
    moreover from inv Some have "running ?q' = None \<and> chain_error ?q' = None \<longrightarrow> pending ?q' = []"
      by simp
    ultimately show ?thesis
      using Progress Some rd by (simp add: render_progress_def queue_inv_def)
  qed
next
  case Resolve
  show ?thesis
  proof (cases "running q")
    case None
    with Resolve inv show ?thesis by (simp add: render_resolved_def)
  next
    case (Some rd)
    obtain r d where rd: "rd = (r, d)" by (cases rd)
    let ?url = "''http://localhost:'' @ js_number port @ ''/renders/'' @ r @ ''.mp4''"
    from Some rd have "registry_inv (q\<lparr>jobs := (jobs q)(r \<mapsto> JobCompleted ?url d), running := None\<rparr>)"
      by (intro registry_inv_settled [OF queue_invD [OF inv]]) simp_all
    then have "queue_inv (chain_next (q\<lparr>jobs := (jobs q)(r \<mapsto> JobCompleted ?url d), running := None\<rparr>))"
      by (rule chain_next_inv)
    with Resolve Some rd show ?thesis
      by (simp add: render_resolved_def)
  qed
next
  case (Reject err)
  show ?thesis
  proof (cases "running q")
    case None
    with Reject inv show ?thesis by (simp add: render_rejected_def)
  next
    case (Some rd)
    obtain r d where rd: "rd = (r, d)" by (cases rd)
    from Some rd have "registry_inv (q\<lparr>jobs := (jobs q)(r \<mapsto> JobFailed err d), running := None\<rparr>)"
      by (intro registry_inv_settled [OF queue_invD [OF inv]]) simp_all
    then have "queue_inv (chain_next (q\<lparr>jobs := (jobs q)(r \<mapsto> JobFailed err d), running := None\<rparr>))"
      by (rule chain_next_inv)
    with Reject Some rd show ?thesis
      by (simp add: render_rejected_def)
  qed
qed

lemma queue_inv_initial: "queue_inv makeRenderQueue"
  by (simp add: queue_inv_def registry_inv_def makeRenderQueue_def)

lemma queue_run_inv:
  assumes "queue_inv q" and "distinct (started q @ pending q @ created_ids es)"
  shows "queue_inv (queue_run port es q)"
  using assms(2)
proof (induction es rule: rev_induct)
  case Nil
  with assms(1) show ?case by (simp add: queue_run_def)
next
  case (snoc e es)
  then have IH: "queue_inv (queue_run port es q)"
    by (auto simp: created_ids_append)
  show ?case
    unfolding queue_run_snoc
  proof (rule queue_step_inv [OF IH])
    fix uuid d assume "e = Create uuid d"
    with snoc.prems show "uuid \<notin> set (started (queue_run port es q) @ pending (queue_run port es q))"
      unfolding queue_run_order by (simp add: created_ids_append)
  qed
qed

lemma reachable_inv:
  "distinct (created_ids es) \<Longrightarrow> queue_inv (queue_run port es makeRenderQueue)"
  by (rule queue_run_inv [OF queue_inv_initial]) (simp add: makeRenderQueue_def)

subsection \<open>Cancelling a job of the in-memory queue\<close>

lemma chain_next_started_job:
  assumes "registry_inv q" and "i \<in> set (started q)"
  shows "jobs (chain_next q) i = jobs q i"
proof -
  from registry_invD(1) [OF assms(1)] assms(2) have "i \<notin> set (pending q)"
    by auto
  then show ?thesis
    by (auto simp: chain_next_def processRender_begin_def split: list.splits option.splits)
qed

lemma call_cancel_running: "running (call_cancel c q) = running q"
  by (cases c) simp_all

lemma unsettled_step_running:
  assumes "running q = Some rd" and "e \<noteq> Resolve" and "\<And>x. e \<noteq> Reject x"
  shows "running (queue_step port q e) = Some rd"
proof (cases e)
  case (Create uuid d)
  with assms(1) show ?thesis
    by (simp add: createJob_def queueRender_def chain_next_def)
next
  case (Cancel jobId)
  with assms(1) show ?thesis
    by (simp add: delete_render_def call_cancel_running split: option.splits JobState.splits)
next
  case (Progress p)
  with assms(1) show ?thesis
    by (cases rd) (simp add: render_progress_def)
next
  case Resolve
  with assms(2) show ?thesis by simp
next
  case (Reject x)
  with assms(3) [of x] show ?thesis by simp
qed

lemma unsettled_run_running:
  assumes "running q = Some rd" and "\<forall>e\<in>set es. e \<noteq> Resolve \<and> (\<forall>x. e \<noteq> Reject x)"
  shows "running (queue_run port es q) = Some rd"
  using assms(2)
proof (induction es rule: rev_induct)
  case Nil
  with assms(1) show ?case by (simp add: queue_run_def)
next
  case (snoc e es)
  then have "running (queue_run port es q) = Some rd" by simp
  from unsettled_step_running [OF this, of e port] snoc.prems show ?case
    by (simp add: queue_run_snoc)
qed

lemma render_rejected_fails:
  assumes inv: "queue_inv q" and run: "running q = Some (jobId, d)"
  shows "jobs (render_rejected err q) jobId = Some (JobFailed err d)"
proof -
  let ?q' = "q\<lparr>jobs := (jobs q)(jobId \<mapsto> JobFailed err d), running := None\<rparr>"
  from run have settled: "registry_inv ?q'"
    by (intro registry_inv_settled [OF queue_invD [OF inv]]) simp_all
  from registry_invD(5) [OF queue_invD [OF inv] run] have "jobId \<in> set (started ?q')"
    by simp
  from chain_next_started_job [OF settled this] run show ?thesis
    by (simp add: render_rejected_def)
qed

text \<open>
  Claim C9.  In every state the server can reach (job identifiers being unique), the
  cancel endpoint answers a job that is not registered with "not found" and a completed
  or failed job with "not cancellable", changing nothing.  For a queued job it removes
  the job from the registry, so that a following lookup finds no job.  For a job in
  progress it calls the cancel function of the render's signal and leaves the job in
  the registry; whatever the server handles next, once the adapter answers by rejecting
  the render the job is \<open>failed\<close>, with the adapter's error and the job's data.
\<close>

theorem cancel_by_status:
  assumes fresh: "distinct (created_ids es)"
    and q: "q = queue_run port es makeRenderQueue"
  shows
    "(jobs q jobId = None \<longrightarrow> delete_render jobId q = (Job_not_found, q)) \<and>
     (\<forall>u d. jobs q jobId = Some (JobCompleted u d) \<longrightarrow>
        delete_render jobId q = (Job_not_cancellable, q)) \<and>
     (\<forall>x d. jobs q jobId = Some (JobFailed x d) \<longrightarrow>
        delete_render jobId q = (Job_not_cancellable, q)) \<and>
     (\<forall>d c. jobs q jobId = Some (JobQueued d c) \<longrightarrow>
        delete_render jobId q = (Job_cancelled, q\<lparr>jobs := (jobs q)(jobId := None)\<rparr>) \<and>
        get_render jobId (snd (delete_render jobId q)) = Job_not_found) \<and>
     (\<forall>p d c. jobs q jobId = Some (JobInProgress p d c) \<longrightarrow>
        delete_render jobId q = (Job_cancelled, q\<lparr>signalled := True\<rparr>) \<and>
        (\<forall>es' err.
           (\<forall>e\<in>set es'. e \<noteq> Resolve \<and> (\<forall>x. e \<noteq> Reject x)) \<and>
           distinct (created_ids (es @ es')) \<longrightarrow>
           jobs (queue_run port (es' @ [Reject err]) (q\<lparr>signalled := True\<rparr>)) jobId
             = Some (JobFailed err d)))"
proof -
  from reachable_inv [OF fresh, of port] q have inv: "queue_inv q"
    by simp
  note D = registry_invD [OF queue_invD [OF inv]]
  have queued: "delete_render jobId q = (Job_cancelled, q\<lparr>jobs := (jobs q)(jobId := None)\<rparr>) \<and>
        get_render jobId (snd (delete_render jobId q)) = Job_not_found"
    if "jobs q jobId = Some (JobQueued d c)" for d c
  proof -
    from D(3) [OF that] have "c = Delete_job jobId" by simp
    with that show ?thesis
      by (simp add: delete_render_def get_render_def)
  qed
  have progress: "delete_render jobId q = (Job_cancelled, q\<lparr>signalled := True\<rparr>) \<and>
        (\<forall>es' err.
           (\<forall>e\<in>set es'. e \<noteq> Resolve \<and> (\<forall>x. e \<noteq> Reject x)) \<and>
           distinct (created_ids (es @ es')) \<longrightarrow>
           jobs (queue_run port (es' @ [Reject err]) (q\<lparr>signalled := True\<rparr>)) jobId
             = Some (JobFailed err d))"
    if job: "jobs q jobId = Some (JobInProgress p d c)" for p d c
  proof (intro conjI allI impI)
    from D(4) [OF job] have c: "c = Cancel_signal" and run: "running q = Some (jobId, d)"
      by simp_all
    from job c show "delete_render jobId q = (Job_cancelled, q\<lparr>signalled := True\<rparr>)"
      by (simp add: delete_render_def)
    fix es' err
    assume later: "(\<forall>e\<in>set es'. e \<noteq> Resolve \<and> (\<forall>x. e \<noteq> Reject x)) \<and>
           distinct (created_ids (es @ es'))"
    let ?q1 = "q\<lparr>signalled := True\<rparr>"
    have inv1: "queue_inv ?q1"
      using inv by (simp add: queue_inv_def registry_inv_def)
    have "started ?q1 @ pending ?q1 = created_ids es"
      using queue_run_order [of port es makeRenderQueue] q by (simp add: makeRenderQueue_def)
    with later have "distinct (started ?q1 @ pending ?q1 @ created_ids es')"
      by (metis append.assoc created_ids_append)
    from queue_run_inv [OF inv1 this] have inv2: "queue_inv (queue_run port es' ?q1)" .
    from run have "running ?q1 = Some (jobId, d)" by simp
    from unsettled_run_running [OF this, of es' port] later
    have "running (queue_run port es' ?q1) = Some (jobId, d)"
      by blast
    from render_rejected_fails [OF inv2 this]
    show "jobs (queue_run port (es' @ [Reject err]) ?q1) jobId = Some (JobFailed err d)"
      by (simp add: queue_run_snoc)
  qed
  have not_found: "jobs q jobId = None \<longrightarrow> delete_render jobId q = (Job_not_found, q)"
    by (simp add: delete_render_def)
  have completed: "\<forall>u d. jobs q jobId = Some (JobCompleted u d) \<longrightarrow>
        delete_render jobId q = (Job_not_cancellable, q)"
    by (simp add: delete_render_def)
  have failed: "\<forall>x d. jobs q jobId = Some (JobFailed x d) \<longrightarrow>
        delete_render jobId q = (Job_not_cancellable, q)"
    by (simp add: delete_render_def)
  from queued have queued': "\<forall>d c. jobs q jobId = Some (JobQueued d c) \<longrightarrow>
        delete_render jobId q = (Job_cancelled, q\<lparr>jobs := (jobs q)(jobId := None)\<rparr>) \<and>
        get_render jobId (snd (delete_render jobId q)) = Job_not_found"
    by blast
  from progress have progress': "\<forall>p d c. jobs q jobId = Some (JobInProgress p d c) \<longrightarrow>
        delete_render jobId q = (Job_cancelled, q\<lparr>signalled := True\<rparr>) \<and>
        (\<forall>es' err.
           (\<forall>e\<in>set es'. e \<noteq> Resolve \<and> (\<forall>x. e \<noteq> Reject x)) \<and>
           distinct (created_ids (es @ es')) \<longrightarrow>
           jobs (queue_run port (es' @ [Reject err]) (q\<lparr>signalled := True\<rparr>)) jobId
             = Some (JobFailed err d))"
    by blast
  from not_found completed failed queued' progress' show ?thesis
    by (intro conjI)
qed


theorem cancel_by_status_witness:
  "(let q = queue_run 3002 [Create ''a'' (), Create ''b'' ()] makeRenderQueue
    in fst (delete_render ''zz'' q) = Job_not_found \<and>
       fst (delete_render ''b'' q) = Job_cancelled \<and>
       get_render ''b'' (snd (delete_render ''b'' q)) = Job_not_found \<and>
       fst (delete_render ''a'' q) = Job_cancelled \<and>
       signalled (snd (delete_render ''a'' q)) \<and>
       jobs (queue_run 3002 [Progress (1 / 2), Create ''c'' (), Reject ''renderMedia() got cancelled'']
               (snd (delete_render ''a'' q))) ''a''
         = Some (JobFailed ''renderMedia() got cancelled'' ()))"
proof -
  define es :: "unit queue_event list" where "es = [Create ''a'' (), Create ''b'' ()]"
  define q where "q = queue_run 3002 es makeRenderQueue"
  have fresh: "distinct (created_ids es)"
    and later: "distinct (created_ids (es @ [Progress (1 / 2), Create ''c'' ()]))"
    "\<forall>e\<in>set [Progress (1 / 2), Create ''c'' ()]. e \<noteq> Resolve \<and> (\<forall>x. e \<noteq> Reject x)"
    by (simp_all add: es_def)
  have state: "jobs q ''zz'' = None" "jobs q ''b'' = Some (JobQueued () (Delete_job ''b''))"
    "jobs q ''a'' = Some (JobInProgress 0 () Cancel_signal)"
    by (simp_all add: q_def es_def queue_run_def createJob_def queueRender_def chain_next_def
        processRender_begin_def makeRenderQueue_def)
  note claim = cancel_by_status [OF fresh q_def]
  from claim [of "''zz''"] state(1) have "fst (delete_render ''zz'' q) = Job_not_found"
    by simp
  moreover from claim [of "''b''"] state(2)
  have "fst (delete_render ''b'' q) = Job_cancelled"
    "get_render ''b'' (snd (delete_render ''b'' q)) = Job_not_found"
    by (metis fst_conv, metis)
  moreover from claim [of "''a''"] state(3)
  have a: "delete_render ''a'' q = (Job_cancelled, q\<lparr>signalled := True\<rparr>)"
    "\<forall>es' err.
       (\<forall>e\<in>set es'. e \<noteq> Resolve \<and> (\<forall>x. e \<noteq> Reject x)) \<and> distinct (created_ids (es @ es')) \<longrightarrow>
       jobs (queue_run 3002 (es' @ [Reject err]) (q\<lparr>signalled := True\<rparr>)) ''a''
         = Some (JobFailed err ())"
    by (metis, metis)
  from a(2) later
  have "jobs (queue_run 3002 ([Progress (1 / 2), Create ''c'' ()] @ [Reject ''renderMedia() got cancelled''])
               (q\<lparr>signalled := True\<rparr>)) ''a''
         = Some (JobFailed ''renderMedia() got cancelled'' ())"
    by blast
  ultimately show ?thesis
    unfolding Let_def es_def [symmetric] q_def [symmetric] using a(1) by simp
qed

subsection \<open>One job at a time, in order, until a cancelled job breaks the chain\<close>

lemma is_queued_iff: "is_queued j \<longleftrightarrow> (\<exists>d c. j = Some (JobQueued d c))"
  by (cases j rule: is_queued.cases) simp_all

lemma is_in_progress_iff: "is_in_progress j \<longleftrightarrow> (\<exists>p d c. j = Some (JobInProgress p d c))"
  by (cases j rule: is_in_progress.cases) simp_all

text \<open>Once the chain has rejected, only creating and cancelling change the registry.\<close>

lemma dead_chain_step:
  assumes dead: "chain_error q \<noteq> None" "running q = None"
    and handles: "\<forall>i d c. jobs q i = Some (JobQueued d c) \<longrightarrow> c = Delete_job i"
      "\<forall>i p d c. jobs q i = Some (JobInProgress p d c) \<longrightarrow> c = Cancel_signal"
  shows "chain_error (queue_step port q e) = chain_error q"
    and "running (queue_step port q e) = None"
    and "started (queue_step port q e) = started q"
    and "\<And>i. jobs (queue_step port q e) i =
          (case e of
             Create u d \<Rightarrow> if i = u then Some (JobQueued d (Delete_job u)) else jobs q i
           | Cancel j \<Rightarrow> if i = j \<and> is_queued (jobs q j) then None else jobs q i
           | _ \<Rightarrow> jobs q i)"
proof -
  have cancel: "chain_error (snd (delete_render j q)) = chain_error q \<and>
      running (snd (delete_render j q)) = None \<and>
      started (snd (delete_render j q)) = started q \<and>
      (\<forall>i. jobs (snd (delete_render j q)) i =
          (if i = j \<and> is_queued (jobs q j) then None else jobs q i))" for j
  proof (cases "jobs q j")
    case None
    with dead show ?thesis by (simp add: delete_render_def)
  next
    case (Some job)
    show ?thesis
    proof (cases job)
      case (JobQueued d c)
      with Some handles(1) have "c = Delete_job j" by blast
      with Some JobQueued dead show ?thesis by (simp add: delete_render_def)
    next
      case (JobInProgress p d c)
      with Some handles(2) have "c = Cancel_signal" by blast
      with Some JobInProgress dead show ?thesis by (simp add: delete_render_def)
    next
      case (JobCompleted u d)
      with Some dead show ?thesis by (simp add: delete_render_def)
    next
      case (JobFailed x d)
      with Some dead show ?thesis by (simp add: delete_render_def)
    qed
  qed
  show "chain_error (queue_step port q e) = chain_error q"
    using dead cancel
    by (cases e) (auto simp: createJob_def queueRender_def chain_next_def render_progress_def
        render_resolved_def render_rejected_def)
  show "running (queue_step port q e) = None"
    using dead cancel
    by (cases e) (auto simp: createJob_def queueRender_def chain_next_def render_progress_def
        render_resolved_def render_rejected_def)
  show "started (queue_step port q e) = started q"
    using dead cancel
    by (cases e) (auto simp: createJob_def queueRender_def chain_next_def render_progress_def
        render_resolved_def render_rejected_def)
  show "jobs (queue_step port q e) i =
          (case e of
             Create u d \<Rightarrow> if i = u then Some (JobQueued d (Delete_job u)) else jobs q i
           | Cancel j \<Rightarrow> if i = j \<and> is_queued (jobs q j) then None else jobs q i
           | _ \<Rightarrow> jobs q i)" for i
    using dead cancel
    by (cases e) (auto simp: createJob_def queueRender_def chain_next_def render_progress_def
        render_resolved_def render_rejected_def)
qed

lemma dead_chain_run:
  assumes dead: "chain_error q \<noteq> None" "running q = None"
    and handles: "\<forall>i d c. jobs q i = Some (JobQueued d c) \<longrightarrow> c = Delete_job i"
      "\<forall>i p d c. jobs q i = Some (JobInProgress p d c) \<longrightarrow> c = Cancel_signal"
  shows "chain_error (queue_run port es q) = chain_error q \<and>
     running (queue_run port es q) = None \<and>
     started (queue_run port es q) = started q \<and>
     (\<forall>i d c. jobs (queue_run port es q) i = Some (JobQueued d c) \<longrightarrow> c = Delete_job i) \<and>
     (\<forall>i p d c. jobs (queue_run port es q) i = Some (JobInProgress p d c) \<longrightarrow> c = Cancel_signal) \<and>
     (\<forall>i. is_queued (jobs q i) \<or> i \<in> set (created_ids es) \<longrightarrow>
        (jobs (queue_run port es q) i = None \<or> is_queued (jobs (queue_run port es q) i)) \<and>
        (Cancel i \<notin> set es \<longrightarrow> is_queued (jobs (queue_run port es q) i)))"
proof (induction es rule: rev_induct)
  case Nil
  with assms show ?case
    by (auto simp: queue_run_def)
next
  case (snoc e es)
  let ?q = "queue_run port es q"
  from snoc.IH have IH:
    "chain_error ?q = chain_error q" "running ?q = None" "started ?q = started q"
    "\<forall>i d c. jobs ?q i = Some (JobQueued d c) \<longrightarrow> c = Delete_job i"
    "\<forall>i p d c. jobs ?q i = Some (JobInProgress p d c) \<longrightarrow> c = Cancel_signal"
    "\<And>i. is_queued (jobs q i) \<or> i \<in> set (created_ids es) \<Longrightarrow>
        (jobs ?q i = None \<or> is_queued (jobs ?q i)) \<and> (Cancel i \<notin> set es \<longrightarrow> is_queued (jobs ?q i))"
    by blast+
  from IH(1) dead(1) have dead': "chain_error ?q \<noteq> None" by simp
  note step = dead_chain_step [OF dead' IH(2) IH(4) IH(5), where port = port and e = e]
  have jobs': "jobs (queue_step port ?q e) i =
          (case e of
             Create u d \<Rightarrow> if i = u then Some (JobQueued d (Delete_job u)) else jobs ?q i
           | Cancel j \<Rightarrow> if i = j \<and> is_queued (jobs ?q j) then None else jobs ?q i
           | _ \<Rightarrow> jobs ?q i)" for i
    by (rule step(4))
  have handle1: "c = Delete_job i" if "jobs (queue_step port ?q e) i = Some (JobQueued d c)" for i d c
    using that IH(4) unfolding jobs' [of i]
    by (cases e) (auto split: if_splits)
  have handle2: "c = Cancel_signal" if "jobs (queue_step port ?q e) i = Some (JobInProgress p d c)"
    for i p d c
    using that IH(5) unfolding jobs' [of i]
    by (cases e) (auto split: if_splits)
  have track: "(jobs (queue_step port ?q e) i = None \<or> is_queued (jobs (queue_step port ?q e) i)) \<and>
        (Cancel i \<notin> set (es @ [e]) \<longrightarrow> is_queued (jobs (queue_step port ?q e) i))"
    if "is_queued (jobs q i) \<or> i \<in> set (created_ids (es @ [e]))" for i
  proof (cases e)
    case (Create u d)
    show ?thesis
    proof (cases "i = u")
      case True
      with Create show ?thesis unfolding jobs' [of i] by simp
    next
      case False
      with that Create have "is_queued (jobs q i) \<or> i \<in> set (created_ids es)"
        by (simp add: created_ids_append)
      from IH(6) [OF this] Create False show ?thesis
        unfolding jobs' [of i] by simp
    qed
  next
    case (Cancel j)
    with that have "is_queued (jobs q i) \<or> i \<in> set (created_ids es)"
      by (simp add: created_ids_append)
    from IH(6) [OF this] Cancel show ?thesis
      unfolding jobs' [of i] by auto
  next
    case (Progress p)
    with that have "is_queued (jobs q i) \<or> i \<in> set (created_ids es)"
      by (simp add: created_ids_append)
    from IH(6) [OF this] Progress show ?thesis
      unfolding jobs' [of i] by simp
  next
    case Resolve
    with that have "is_queued (jobs q i) \<or> i \<in> set (created_ids es)"
      by (simp add: created_ids_append)
    from IH(6) [OF this] Resolve show ?thesis
      unfolding jobs' [of i] by simp
  next
    case (Reject x)
    with that have "is_queued (jobs q i) \<or> i \<in> set (created_ids es)"
      by (simp add: created_ids_append)
    from IH(6) [OF this] Reject show ?thesis
      unfolding jobs' [of i] by simp
  qed
  let ?q' = "queue_step port ?q e"
  from step(1) IH(1) have "chain_error ?q' = chain_error q" by simp
  moreover note step(2)
  moreover from step(3) IH(3) have "started ?q' = started q" by simp
  moreover from handle1
  have "\<forall>i d c. jobs ?q' i = Some (JobQueued d c) \<longrightarrow> c = Delete_job i" by blast
  moreover from handle2
  have "\<forall>i p d c. jobs ?q' i = Some (JobInProgress p d c) \<longrightarrow> c = Cancel_signal" by blast
  moreover from track
  have "\<forall>i. is_queued (jobs q i) \<or> i \<in> set (created_ids (es @ [e])) \<longrightarrow>
        (jobs ?q' i = None \<or> is_queued (jobs ?q' i)) \<and>
        (Cancel i \<notin> set (es @ [e]) \<longrightarrow> is_queued (jobs ?q' i))" by blast
  ultimately show ?case
    unfolding queue_run_snoc by (intro conjI)
qed


lemma chain_next_pending_absent:
  assumes "X \<in> set (pending q)" and "jobs q X = None"
  shows "(X \<in> set (pending (chain_next q)) \<and> jobs (chain_next q) X = None) \<or>
         chain_error (chain_next q) = Some (not_found_message X)"
proof (cases "running q = None \<and> chain_error q = None")
  case False
  with assms show ?thesis by (auto simp: chain_next_def)
next
  case idle: True
  from assms(1) obtain h rest where pending: "pending q = h # rest"
    by (cases "pending q") auto
  show ?thesis
  proof (cases "h = X")
    case True
    with idle pending assms(2) show ?thesis
      by (simp add: chain_next_def processRender_begin_def)
  next
    case False
    with assms(1) pending have "X \<in> set rest" by auto
    with idle pending assms(2) False show ?thesis
      by (cases "jobs q h") (simp_all add: chain_next_def processRender_begin_def)
  qed
qed

lemma chain_error_sticky:
  assumes "queue_inv q" and "chain_error q = Some x"
  shows "chain_error (queue_step port q e) = Some x"
proof -
  note D = registry_invD [OF queue_invD [OF assms(1)]]
  from assms(2) D(6) have "chain_error q \<noteq> None" "running q = None"
    by simp_all
  moreover from D(3) have "\<forall>i d c. jobs q i = Some (JobQueued d c) \<longrightarrow> c = Delete_job i"
    by blast
  moreover from D(4) have "\<forall>i p d c. jobs q i = Some (JobInProgress p d c) \<longrightarrow> c = Cancel_signal"
    by blast
  ultimately have "chain_error (queue_step port q e) = chain_error q"
    by (rule dead_chain_step(1))
  with assms(2) show ?thesis by simp
qed

lemma cancelled_job_step:
  assumes inv: "queue_inv q"
    and fresh: "\<And>u d. e = Create u d \<Longrightarrow> u \<notin> set (started q @ pending q)"
    and X: "(X \<in> set (pending q) \<and> jobs q X = None) \<or> chain_error q = Some (not_found_message X)"
  shows "(X \<in> set (pending (queue_step port q e)) \<and> jobs (queue_step port q e) X = None) \<or>
         chain_error (queue_step port q e) = Some (not_found_message X)"
  using X
proof
  assume "chain_error q = Some (not_found_message X)"
  from chain_error_sticky [OF inv this] show ?thesis by simp
next
  assume absent: "X \<in> set (pending q) \<and> jobs q X = None"
  note D = registry_invD [OF queue_invD [OF inv]]
  have not_running: "r \<noteq> X" if "running q = Some (r, d)" for r d
  proof
    assume "r = X"
    with D(5) [OF that] have "X \<in> set (started q)" by simp
    with absent D(1) show False by auto
  qed
  show ?thesis
  proof (cases e)
    case (Create u d)
    from fresh [OF Create] absent have "u \<noteq> X" by auto
    with absent have "X \<in> set (pending (q\<lparr>jobs := (jobs q)(u \<mapsto> JobQueued d (Delete_job u)),
                         pending := pending q @ [u]\<rparr>))"
      "jobs (q\<lparr>jobs := (jobs q)(u \<mapsto> JobQueued d (Delete_job u)),
                         pending := pending q @ [u]\<rparr>) X = None"
      by simp_all
    from chain_next_pending_absent [OF this] Create show ?thesis
      by (simp add: createJob_def queueRender_def)
  next
    case (Cancel j)
    show ?thesis
    proof (cases "jobs q j")
      case None
      with Cancel absent show ?thesis by (simp add: delete_render_def)
    next
      case (Some job)
      show ?thesis
      proof (cases job)
        case (JobQueued d c)
        with Some D(3) have "c = Delete_job j" by blast
        with Cancel Some JobQueued absent show ?thesis by (simp add: delete_render_def)
      next
        case (JobInProgress p d c)
        with Some D(4) have "c = Cancel_signal" by blast
        with Cancel Some JobInProgress absent show ?thesis by (simp add: delete_render_def)
      next
        case (JobCompleted u d)
        with Cancel Some absent show ?thesis by (simp add: delete_render_def)
      next
        case (JobFailed x d)
        with Cancel Some absent show ?thesis by (simp add: delete_render_def)
      qed
    qed
  next
    case (Progress p)
    show ?thesis
    proof (cases "running q")
      case None
      with Progress absent show ?thesis by (simp add: render_progress_def)
    next
      case (Some rd)
      obtain r d where rd: "rd = (r, d)" by (cases rd)
      with Some not_running have "r \<noteq> X" by blast
      with Progress Some rd absent show ?thesis by (simp add: render_progress_def)
    qed
  next
    case Resolve
    show ?thesis
    proof (cases "running q")
      case None
      with Resolve absent show ?thesis by (simp add: render_resolved_def)
    next
      case (Some rd)
      obtain r d where rd: "rd = (r, d)" by (cases rd)
      with Some not_running have "r \<noteq> X" by blast
      let ?url = "''http://localhost:'' @ js_number port @ ''/renders/'' @ r @ ''.mp4''"
      from \<open>r \<noteq> X\<close> absent
      have "X \<in> set (pending (q\<lparr>jobs := (jobs q)(r \<mapsto> JobCompleted ?url d), running := None\<rparr>))"
        "jobs (q\<lparr>jobs := (jobs q)(r \<mapsto> JobCompleted ?url d), running := None\<rparr>) X = None"
        by simp_all
      from chain_next_pending_absent [OF this] Resolve Some rd show ?thesis
        by (simp add: render_resolved_def)
    qed
  next
    case (Reject err)
    show ?thesis
    proof (cases "running q")
      case None
      with Reject absent show ?thesis by (simp add: render_rejected_def)
    next
      case (Some rd)
      obtain r d where rd: "rd = (r, d)" by (cases rd)
      with Some not_running have "r \<noteq> X" by blast
      with absent
      have "X \<in> set (pending (q\<lparr>jobs := (jobs q)(r \<mapsto> JobFailed err d), running := None\<rparr>))"
        "jobs (q\<lparr>jobs := (jobs q)(r \<mapsto> JobFailed err d), running := None\<rparr>) X = None"
        by simp_all
      from chain_next_pending_absent [OF this] Reject Some rd show ?thesis
        by (simp add: render_rejected_def)
    qed
  qed
qed

lemma cancelled_job_run:
  assumes inv: "queue_inv q" and fresh: "distinct (started q @ pending q @ created_ids es)"
    and X: "X \<in> set (pending q)" "jobs q X = None"
  shows "(X \<in> set (pending (queue_run port es q)) \<and> jobs (queue_run port es q) X = None) \<or>
         chain_error (queue_run port es q) = Some (not_found_message X)"
  using fresh
proof (induction es rule: rev_induct)
  case Nil
  with X show ?case by (simp add: queue_run_def)
next
  case (snoc e es)
  then have fresh': "distinct (started q @ pending q @ created_ids es)"
    by (auto simp: created_ids_append)
  note inv' = queue_run_inv [OF inv fresh', of port]
  show ?case
    unfolding queue_run_snoc
  proof (rule cancelled_job_step [OF inv' _ snoc.IH [OF fresh']])
    fix u d assume "e = Create u d"
    with snoc.prems show "u \<notin> set (started (queue_run port es q) @ pending (queue_run port es q))"
      unfolding queue_run_order by (simp add: created_ids_append)
  qed
qed

subsection \<open>The server process and the rejected chain\<close>

lemma server_run_snoc:
  "server_run mode port (es @ [e]) s = server_step mode port (server_run mode port es s) e"
  by (simp add: server_run_def)

lemma server_run_append:
  "server_run mode port (es @ es') s = server_run mode port es' (server_run mode port es s)"
  by (simp add: server_run_def)

lemma server_run_exited: "server_run mode port es (Exited code) = Exited code"
  by (induction es) (simp_all add: server_run_def)

lemma server_run_warn: "server_run Warn_unhandled port es (Serving q) = Serving (queue_run port es q)"
  by (induction es rule: rev_induct) (simp_all add: server_run_snoc queue_run_snoc, simp add: server_run_def queue_run_def)

lemma server_run_throw:
  assumes inv: "queue_inv q" and fresh: "distinct (started q @ pending q @ created_ids es)"
    and alive: "chain_error q = None"
  shows "server_run Throw_unhandled port es (Serving q) =
         (if chain_error (queue_run port es q) = None then Serving (queue_run port es q)
          else Exited 1)"
  using fresh
proof (induction es rule: rev_induct)
  case Nil
  with alive show ?case by (simp add: server_run_def queue_run_def)
next
  case (snoc e es)
  then have fresh': "distinct (started q @ pending q @ created_ids es)"
    by (auto simp: created_ids_append)
  note inv' = queue_run_inv [OF inv fresh', of port]
  show ?case
  proof (cases "chain_error (queue_run port es q)")
    case None
    with snoc.IH [OF fresh'] show ?thesis
      by (simp add: server_run_snoc queue_run_snoc)
  next
    case (Some x)
    from chain_error_sticky [OF inv' Some, of port e] Some snoc.IH [OF fresh'] show ?thesis
      by (simp add: server_run_snoc queue_run_snoc)
  qed
qed

lemma server_run_started_throw:
  assumes "distinct (created_ids es)"
  shows "server_run Throw_unhandled port es server_started =
         (if chain_error (queue_run port es makeRenderQueue) = None
          then Serving (queue_run port es makeRenderQueue) else Exited 1)"
  unfolding server_started_def
  by (rule server_run_throw [OF queue_inv_initial]) (use assms in \<open>simp_all add: makeRenderQueue_def\<close>)

text \<open>
  Claim C10.  \<open>q\<close> is the state the queue has reached after the events \<open>es\<close>, job
  identifiers being unique.  A server that only warns of unhandled rejections is
  serving with that state; a server that throws them is serving with it as long as
  the chain has not rejected, and has exited with code 1 otherwise.  In \<open>q\<close> at most
  one job is in progress, and the jobs \<open>processRender\<close> has been called with, followed
  by the jobs whose callback is still pending on the chain, are the created jobs in the
  order of their creation.  Cancelling a queued job leaves its callback pending with the
  job gone from the registry; whatever happens next, as soon as \<open>processRender\<close> has
  been called with that job the chain has rejected with the not-found error, and the
  server that throws unhandled rejections has exited with code 1.  Once the chain has
  rejected, that server stays exited whatever is sent to it; in the server that only
  warns the chain stays rejected and \<open>processRender\<close> is never called again: every job
  that is queued then or is created later is never set in progress, completed or
  failed; it stays queued, unless a cancel request removes it.
\<close>

theorem chain_in_order_until_broken:
  assumes fresh: "distinct (created_ids es)"
    and q: "q = queue_run port es makeRenderQueue"
  shows
    "server_run Warn_unhandled port es server_started = Serving q \<and>
     server_run Throw_unhandled port es server_started =
       (if chain_error q = None then Serving q else Exited 1) \<and>
     (\<forall>i j. is_in_progress (jobs q i) \<and> is_in_progress (jobs q j) \<longrightarrow> i = j) \<and>
     started q @ pending q = created_ids es \<and>
     (\<forall>X d c. jobs q X = Some (JobQueued d c) \<longrightarrow>
        X \<in> set (pending (snd (delete_render X q))) \<and> jobs (snd (delete_render X q)) X = None) \<and>
     (\<forall>X es'. X \<in> set (pending q) \<and> jobs q X = None \<and> distinct (created_ids (es @ es')) \<and>
        X \<in> set (started (queue_run port es' q)) \<longrightarrow>
        chain_error (queue_run port es' q) = Some (not_found_message X) \<and>
        server_run Warn_unhandled port (es @ es') server_started = Serving (queue_run port es' q) \<and>
        server_run Throw_unhandled port (es @ es') server_started = Exited 1) \<and>
     (chain_error q \<noteq> None \<longrightarrow>
        (\<forall>es'. server_run Throw_unhandled port (es @ es') server_started = Exited 1 \<and>
               server_run Warn_unhandled port (es @ es') server_started =
                 Serving (queue_run port es' q) \<and>
               chain_error (queue_run port es' q) = chain_error q \<and>
               started (queue_run port es' q) = started q \<and>
               (\<forall>i. is_queued (jobs q i) \<or> i \<in> set (created_ids es') \<longrightarrow>
                  (jobs (queue_run port es' q) i = None \<or> is_queued (jobs (queue_run port es' q) i)) \<and>
                  (Cancel i \<notin> set es' \<longrightarrow> is_queued (jobs (queue_run port es' q) i)))))"
proof -
  from reachable_inv [OF fresh, of port] q have inv: "queue_inv q"
    by simp
  note D = registry_invD [OF queue_invD [OF inv]]
  have warn: "server_run Warn_unhandled port (es @ es') server_started =
      Serving (queue_run port es' q)" for es'
    by (simp add: server_started_def server_run_warn queue_run_append q)
  from warn [of "[]"] have warn0: "server_run Warn_unhandled port es server_started = Serving q"
    by (simp add: queue_run_def)
  have throw0: "server_run Throw_unhandled port es server_started =
       (if chain_error q = None then Serving q else Exited 1)"
    using server_run_started_throw [OF fresh, of port] q by simp
  have order: "started q @ pending q = created_ids es"
    using queue_run_order [of port es makeRenderQueue] q by (simp add: makeRenderQueue_def)
  have one: "\<forall>i j. is_in_progress (jobs q i) \<and> is_in_progress (jobs q j) \<longrightarrow> i = j"
  proof (intro allI impI)
    fix i j assume "is_in_progress (jobs q i) \<and> is_in_progress (jobs q j)"
    then obtain p d c p' d' c' where "jobs q i = Some (JobInProgress p d c)"
      "jobs q j = Some (JobInProgress p' d' c')"
      by (auto simp: is_in_progress_iff)
    with D(4) [of i p d c] D(4) [of j p' d' c'] show "i = j" by simp
  qed
  have cancelled: "\<forall>X d c. jobs q X = Some (JobQueued d c) \<longrightarrow>
        X \<in> set (pending (snd (delete_render X q))) \<and> jobs (snd (delete_render X q)) X = None"
  proof (intro allI impI)
    fix X d c assume job: "jobs q X = Some (JobQueued d c)"
    from D(3) [OF job] have "c = Delete_job X" "X \<in> set (pending q)" by simp_all
    with job show "X \<in> set (pending (snd (delete_render X q))) \<and>
        jobs (snd (delete_render X q)) X = None"
      by (simp add: delete_render_def)
  qed
  have broken: "\<forall>X es'. X \<in> set (pending q) \<and> jobs q X = None \<and> distinct (created_ids (es @ es')) \<and>
        X \<in> set (started (queue_run port es' q)) \<longrightarrow>
        chain_error (queue_run port es' q) = Some (not_found_message X) \<and>
        server_run Warn_unhandled port (es @ es') server_started = Serving (queue_run port es' q) \<and>
        server_run Throw_unhandled port (es @ es') server_started = Exited 1"
  proof (intro allI impI, elim conjE)
    fix X es'
    assume X: "X \<in> set (pending q)" "jobs q X = None"
      and fresh': "distinct (created_ids (es @ es'))"
      and turn: "X \<in> set (started (queue_run port es' q))"
    from fresh' order have dist: "distinct (started q @ pending q @ created_ids es')"
      by (metis append.assoc created_ids_append)
    from queue_run_inv [OF inv dist, of port]
    have "distinct (started (queue_run port es' q) @ pending (queue_run port es' q))"
      by (rule registry_invD(1) [OF queue_invD])
    with turn have "X \<notin> set (pending (queue_run port es' q))"
      by auto
    with cancelled_job_run [OF inv dist X, of port]
    have rejected: "chain_error (queue_run port es' q) = Some (not_found_message X)"
      by blast
    have "queue_run port (es @ es') makeRenderQueue = queue_run port es' q"
      by (simp add: queue_run_append q)
    with server_run_started_throw [OF fresh', of port] rejected
    have "server_run Throw_unhandled port (es @ es') server_started = Exited 1"
      by simp
    with rejected warn [of es']
    show "chain_error (queue_run port es' q) = Some (not_found_message X) \<and>
        server_run Warn_unhandled port (es @ es') server_started = Serving (queue_run port es' q) \<and>
        server_run Throw_unhandled port (es @ es') server_started = Exited 1"
      by simp
  qed
  have dead: "\<forall>es'. server_run Throw_unhandled port (es @ es') server_started = Exited 1 \<and>
               server_run Warn_unhandled port (es @ es') server_started =
                 Serving (queue_run port es' q) \<and>
               chain_error (queue_run port es' q) = chain_error q \<and>
               started (queue_run port es' q) = started q \<and>
               (\<forall>i. is_queued (jobs q i) \<or> i \<in> set (created_ids es') \<longrightarrow>
                  (jobs (queue_run port es' q) i = None \<or> is_queued (jobs (queue_run port es' q) i)) \<and>
                  (Cancel i \<notin> set es' \<longrightarrow> is_queued (jobs (queue_run port es' q) i)))"
    if rejected: "chain_error q \<noteq> None"
  proof
    fix es'
    from rejected throw0
    have "server_run Throw_unhandled port es server_started = Exited 1"
      by auto
    then have exited: "server_run Throw_unhandled port (es @ es') server_started = Exited 1"
      by (simp add: server_run_append server_run_exited)
    from rejected D(6) have "running q = None" by simp
    moreover from D(3) have "\<forall>i d c. jobs q i = Some (JobQueued d c) \<longrightarrow> c = Delete_job i"
      by blast
    moreover from D(4) have "\<forall>i p d c. jobs q i = Some (JobInProgress p d c) \<longrightarrow> c = Cancel_signal"
      by blast
    ultimately have "chain_error (queue_run port es' q) = chain_error q \<and>
               started (queue_run port es' q) = started q \<and>
               (\<forall>i. is_queued (jobs q i) \<or> i \<in> set (created_ids es') \<longrightarrow>
                  (jobs (queue_run port es' q) i = None \<or> is_queued (jobs (queue_run port es' q) i)) \<and>
                  (Cancel i \<notin> set es' \<longrightarrow> is_queued (jobs (queue_run port es' q) i)))"
      using dead_chain_run [OF rejected, of port es'] by blast
    with exited warn [of es']
    show "server_run Throw_unhandled port (es @ es') server_started = Exited 1 \<and>
               server_run Warn_unhandled port (es @ es') server_started =
                 Serving (queue_run port es' q) \<and>
               chain_error (queue_run port es' q) = chain_error q \<and>
               started (queue_run port es' q) = started q \<and>
               (\<forall>i. is_queued (jobs q i) \<or> i \<in> set (created_ids es') \<longrightarrow>
                  (jobs (queue_run port es' q) i = None \<or> is_queued (jobs (queue_run port es' q) i)) \<and>
                  (Cancel i \<notin> set es' \<longrightarrow> is_queued (jobs (queue_run port es' q) i)))"
      by (intro conjI) blast+
  qed
  from warn0 throw0 one order cancelled broken dead show ?thesis
    by (intro conjI impI)
qed

theorem chain_in_order_until_broken_witness:
  "(let es = [Create ''a'' (), Create ''b'' (), Create ''c'' (), Cancel ''b''];
        q = queue_run 3002 es makeRenderQueue;
        later = [Resolve, Create ''d'' (), Progress 1, Reject ''x'']
    in started q @ pending q = [''a'', ''b'', ''c''] \<and>
       server_run Throw_unhandled 3002 es server_started = Serving q \<and>
       chain_error (queue_run 3002 [Resolve] q) = Some (not_found_message ''b'') \<and>
       server_run Throw_unhandled 3002 (es @ [Resolve]) server_started = Exited 1 \<and>
       server_run Throw_unhandled 3002 (es @ later) server_started = Exited 1 \<and>
       server_run Warn_unhandled 3002 (es @ later) server_started =
         Serving (queue_run 3002 later q) \<and>
       is_queued (jobs (queue_run 3002 later q) ''c'') \<and>
       is_queued (jobs (queue_run 3002 later q) ''d'') \<and>
       started (queue_run 3002 later q) = [''a'', ''b''])"
proof -
  define es :: "unit queue_event list"
    where "es = [Create ''a'' (), Create ''b'' (), Create ''c'' (), Cancel ''b'']"
  define q where "q = queue_run 3002 es makeRenderQueue"
  define q' where "q' = queue_run 3002 (es @ [Resolve]) makeRenderQueue"
  define later :: "unit queue_event list"
    where "later = [Resolve, Create ''d'' (), Progress 1, Reject ''x'']"
  have fresh: "distinct (created_ids es)" "distinct (created_ids (es @ [Resolve]))"
    by (simp_all add: es_def)
  have state: "pending q = [''b'', ''c'']" "jobs q ''b'' = None" "started q = [''a'']"
    "is_queued (jobs q ''c'')" "chain_error q = None"
    by (simp_all add: q_def es_def queue_run_def createJob_def queueRender_def chain_next_def
        processRender_begin_def makeRenderQueue_def delete_render_def)
  have turn: "started (queue_run 3002 [Resolve] q) = [''a'', ''b'']"
    by (simp add: q_def es_def queue_run_def createJob_def queueRender_def chain_next_def
        processRender_begin_def makeRenderQueue_def delete_render_def render_resolved_def)
  have q'_eq: "q' = queue_run 3002 [Resolve] q"
    by (simp add: q'_def q_def queue_run_append)
  note claim = chain_in_order_until_broken [OF fresh(1) q_def]
  from claim have order: "started q @ pending q = created_ids es"
    by blast
  from claim state(5) have serving: "server_run Throw_unhandled 3002 es server_started = Serving q"
    by simp
  from claim state(1,2) fresh(2) turn
  have broken: "chain_error (queue_run 3002 [Resolve] q) = Some (not_found_message ''b'')"
    "server_run Throw_unhandled 3002 (es @ [Resolve]) server_started = Exited 1"
    by (metis list.set_intros(1) list.set_intros(2))+
  note claim' = chain_in_order_until_broken [OF fresh(2) q'_def]
  have c: "is_queued (jobs q' ''c'')"
    by (simp add: q'_def es_def queue_run_def createJob_def queueRender_def chain_next_def
        processRender_begin_def makeRenderQueue_def delete_render_def render_resolved_def)
  from broken q'_eq have "chain_error q' \<noteq> None" by simp
  with claim' have dead:
    "server_run Throw_unhandled 3002 ((es @ [Resolve]) @ es') server_started = Exited 1 \<and>
     server_run Warn_unhandled 3002 ((es @ [Resolve]) @ es') server_started =
       Serving (queue_run 3002 es' q') \<and>
     chain_error (queue_run 3002 es' q') = chain_error q' \<and>
        started (queue_run 3002 es' q') = started q' \<and>
        (\<forall>i. is_queued (jobs q' i) \<or> i \<in> set (created_ids es') \<longrightarrow>
           (jobs (queue_run 3002 es' q') i = None \<or> is_queued (jobs (queue_run 3002 es' q') i)) \<and>
           (Cancel i \<notin> set es' \<longrightarrow> is_queued (jobs (queue_run 3002 es' q') i)))" for es'
    by blast
  let ?rest = "[Create ''d'' (), Progress 1, Reject ''x''] :: unit queue_event list"
  have later_eq: "(es @ [Resolve]) @ ?rest = es @ later"
    "queue_run 3002 ?rest q' = queue_run 3002 later q"
    by (simp_all add: later_def q'_eq queue_run_def)
  from dead [of ?rest] c
  have "server_run Throw_unhandled 3002 (es @ later) server_started = Exited 1"
    "server_run Warn_unhandled 3002 (es @ later) server_started = Serving (queue_run 3002 later q)"
    "is_queued (jobs (queue_run 3002 later q) ''c'')"
    "is_queued (jobs (queue_run 3002 later q) ''d'')"
    "started (queue_run 3002 later q) = started q'"
    unfolding later_eq by simp_all
  with order serving broken turn q'_eq show ?thesis
    unfolding Let_def es_def [symmetric] q_def [symmetric] later_def [symmetric]
    by (simp add: es_def)
qed

text \<open>
  Three jobs are created, the second is cancelled while the first is rendering, and the
  first render resolves.  The server that throws unhandled rejections has exited with
  code 1: no job is queued in it, and a job created afterwards is not registered.  In
  the server that only warns, a job that is queued after the rejection is gone from the
  registry once a cancel request has named it.
\<close>

theorem unhandled_rejection_ends_server:
  "server_run Throw_unhandled 3002
     [Create ''a'' (), Create ''b'' (), Create ''c'' (), Cancel ''b'', Resolve, Create ''d'' ()]
     server_started = Exited 1 \<and>
   (case server_run Warn_unhandled 3002
      [Create ''a'' (), Create ''b'' (), Create ''c'' (), Cancel ''b'', Resolve, Create ''d'' (),
       Cancel ''c''] server_started of
      Serving q \<Rightarrow> chain_error q = Some (not_found_message ''b'') \<and> jobs q ''c'' = None \<and>
        is_queued (jobs q ''d'')
    | Exited code \<Rightarrow> False)"
  by (simp add: server_run_def server_started_def createJob_def queueRender_def chain_next_def
      processRender_begin_def makeRenderQueue_def delete_render_def render_resolved_def)

subsection \<open>Shutdown: no new claims, exit codes and the deadline\<close>

lemma worker_started_fields:
  "tasks worker_started = []" "exit_code worker_started = None"
  "activeRenders worker_started = 0" "\<not> shuttingDown worker_started"
  "\<not> pool_closed worker_started" "claims worker_started = 1"
  "loop worker_started = Loop_claiming"
  by (simp_all add: worker_started_def loop_head_def MAX_PARALLEL_def)

lemma process_run_snoc: "process_run (es @ [e]) p = process_step (process_run es p) e"
  by (simp add: process_run_def)

lemma process_run_Nil: "process_run [] p = p"
  by (simp add: process_run_def)

lemma process_run_Cons: "process_run (e # es) p = process_run es (process_step p e)"
  by (simp add: process_run_def)

lemma process_run_append: "process_run (es @ es') p = process_run es' (process_run es p)"
  by (simp add: process_run_def)

lemma exited_step: "exit_code p \<noteq> None \<Longrightarrow> process_step p e = p"
  by (cases e) auto

lemma exited_run: "exit_code p \<noteq> None \<Longrightarrow> process_run es p = p"
  by (induction es rule: rev_induct) (simp_all add: process_run_snoc exited_step, simp add: process_run_def)

lemma running_prefix:
  assumes "exit_code (process_run (es @ es') p) = None"
  shows "exit_code (process_run es p) = None"
proof (rule ccontr)
  assume "exit_code (process_run es p) \<noteq> None"
  then have "process_run (es @ es') p = process_run es p"
    by (simp add: process_run_append exited_run)
  with assms \<open>exit_code (process_run es p) \<noteq> None\<close> show False by simp
qed

lemma flag_step:
  assumes "shuttingDown p"
  shows "claims (process_step p e) = claims p \<and> shuttingDown (process_step p e)"
  using assms by (cases e) (auto simp: loop_head_def Let_def split: claim_result.splits)

lemma flag_run:
  assumes "shuttingDown p"
  shows "claims (process_run es p) = claims p \<and> shuttingDown (process_run es p)"
  using assms by (induction es rule: rev_induct)
    (simp add: process_run_def, simp add: process_run_snoc flag_step)

lemma signal_sets_flag:
  "exit_code (process_step p Signal) \<noteq> None \<or> shuttingDown (process_step p Signal)"
  by (simp add: Let_def)

lemma no_claim_after_signal:
  "claims (process_run (es @ Signal # es') p) = claims (process_run (es @ [Signal]) p)"
proof -
  let ?q = "process_run (es @ [Signal]) p"
  have run: "process_run (es @ Signal # es') p = process_run es' ?q"
    by (simp add: process_run_def)
  from signal_sets_flag [of "process_run es p"]
  consider "exit_code ?q \<noteq> None" | "shuttingDown ?q"
    by (auto simp: process_run_snoc)
  then show ?thesis
  proof cases
    case 1
    then show ?thesis unfolding run by (simp add: exited_run)
  next
    case 2
    then show ?thesis unfolding run by (simp add: flag_run)
  qed
qed

lemma next_due_least: "t \<in> set ts \<Longrightarrow> next_due (map force_at ts) \<le> force_at t"
  by (induction ts rule: induct_list012) auto

lemma next_due_armed: "ts \<noteq> [] \<Longrightarrow> \<exists>k<length ts. next_due (map force_at ts) = force_at (ts ! k)"
proof (induction ts rule: induct_list012)
  case 1
  then show ?case by simp
next
  case (2 t)
  then show ?case by simp
next
  case (3 t u ts)
  then obtain k where k: "k < length (u # ts)" "next_due (map force_at (u # ts)) = force_at ((u # ts) ! k)"
    by blast
  show ?case
  proof (cases "force_at t \<le> next_due (map force_at (u # ts))")
    case True
    then show ?thesis by (intro exI [of _ 0]) (simp add: min_def)
  next
    case False
    with k show ?thesis by (intro exI [of _ "Suc k"]) (simp add: min_def)
  qed
qed

text \<open>
  What holds of the worker process at every moment: the counter is not negative, only a
  call of \<open>shutdown\<close> makes a task, a running process has not closed its pool and has
  no timer that is due, and a process exits only through a task.
\<close>

definition process_inv :: "process \<Rightarrow> bool" where
  "process_inv p \<longleftrightarrow>
     0 \<le> activeRenders p \<and>
     (tasks p \<noteq> [] \<longrightarrow> shuttingDown p) \<and>
     (exit_code p = None \<longrightarrow> \<not> pool_closed p) \<and>
     (exit_code p = None \<longrightarrow> (\<forall>t\<in>set (tasks p). clock p < force_at t)) \<and>
     (exit_code p \<noteq> None \<longrightarrow> tasks p \<noteq> [])"

lemma set_update_task:
  "t \<in> set (ts[k := (ts ! k)\<lparr>graceful := g\<rparr>]) \<Longrightarrow> \<exists>u\<in>set ts. force_at t = force_at u"
  by (cases "k < length ts") (auto simp: set_conv_nth nth_list_update split: if_splits)

lemma process_inv_step:
  assumes "process_inv p"
  shows "process_inv (process_step p e)"
proof (cases "exit_code p = None")
  case False
  with assms show ?thesis by (simp add: exited_step)
next
  case True
  show ?thesis
  proof (cases e)
    case (Advance ms)
    show ?thesis
    proof (cases "tasks p \<noteq> [] \<and> next_due (map force_at (tasks p)) \<le> clock p + int ms")
      case True
      with assms Advance \<open>exit_code p = None\<close> show ?thesis
        by (simp add: process_inv_def)
    next
      case False
      have "clock p + int ms < force_at t" if "t \<in> set (tasks p)" for t
        using False next_due_least [OF that] that by auto
      with assms Advance \<open>exit_code p = None\<close> False show ?thesis
        by (auto simp: process_inv_def)
    qed
  next
    case (Graceful_wakes k)
    with assms True show ?thesis
      by (auto simp: process_inv_def FORCE_EXIT_MS_def dest!: set_update_task)
  next
    case Signal
    with assms True show ?thesis
      by (auto simp: process_inv_def Let_def FORCE_EXIT_MS_def)
  next
    case Sleep_ends
    with assms True show ?thesis
      by (auto simp: process_inv_def loop_head_def)
  next
    case (Claim_returns r)
    with assms True show ?thesis
      by (cases r) (auto simp: process_inv_def loop_head_def)
  next
    case Job_finishes
    with assms True show ?thesis
      by (auto simp: process_inv_def)
  next
    case (Pool_end_returns k ok)
    with assms True show ?thesis
      by (auto simp: process_inv_def)
  qed
qed

lemma process_inv_run: "process_inv (process_run es worker_started)"
proof (induction es rule: rev_induct)
  case Nil
  show ?case by (simp add: process_run_def process_inv_def worker_started_fields)
next
  case (snoc e es)
  then show ?case unfolding process_run_snoc by (rule process_inv_step)
qed

lemma timer_step:
  assumes "k < length (tasks (process_step p e))"
  shows "(k < length (tasks p) \<and> force_at (tasks (process_step p e) ! k) = force_at (tasks p ! k)) \<or>
         (e = Signal \<and> exit_code p = None \<and> k = length (tasks p) \<and>
          force_at (tasks (process_step p e) ! k) = clock p + FORCE_EXIT_MS)"
  using assms
  by (cases e)
    (auto simp: loop_head_def Let_def nth_append nth_list_update
      split: claim_result.splits if_splits)

lemma timer_kept_step:
  assumes "k < length (tasks p)"
  shows "k < length (tasks (process_step p e)) \<and>
         force_at (tasks (process_step p e) ! k) = force_at (tasks p ! k)"
  using assms
  by (cases e)
    (auto simp: loop_head_def Let_def nth_append nth_list_update
      split: claim_result.splits if_splits)

lemma timer_kept_run:
  assumes "k < length (tasks p)"
  shows "k < length (tasks (process_run es p)) \<and>
         force_at (tasks (process_run es p) ! k) = force_at (tasks p ! k)"
  using assms
  by (induction es rule: rev_induct)
    (simp add: process_run_def, simp add: process_run_snoc timer_kept_step)

lemma exit_zero_step:
  assumes "exit_code (process_step p e) = Some 0"
  shows "(exit_code p = Some 0 \<and> process_step p e = p) \<or>
         (exit_code p = None \<and>
          (\<exists>k ok. e = Pool_end_returns k ok \<and> k < length (tasks p) \<and>
             graceful (tasks p ! k) = Closing_pool \<and>
             activeRenders (process_step p e) = activeRenders p \<and>
             pool_closed (process_step p e) = (pool_closed p \<or> ok)))"
  using assms
  by (cases e) (auto simp: loop_head_def Let_def split: claim_result.splits if_splits)

lemma exit_one_step:
  assumes "exit_code (process_step p e) = Some 1"
  shows "(exit_code p = Some 1 \<and> process_step p e = p) \<or>
         (exit_code p = None \<and> tasks p \<noteq> [] \<and> tasks (process_step p e) = tasks p \<and>
          clock (process_step p e) = next_due (map force_at (tasks p)))"
  using assms
  by (cases e) (auto simp: loop_head_def Let_def split: claim_result.splits if_splits)

lemma exit_code_step:
  assumes "exit_code p \<in> {None, Some 0, Some 1}"
  shows "exit_code (process_step p e) \<in> {None, Some 0, Some 1}"
  using assms
  by (cases e) (auto simp: loop_head_def Let_def split: claim_result.splits if_splits)

lemma exit_code_run:
  "exit_code (process_run es worker_started) \<in> {None, Some 0, Some 1}"
proof (induction es rule: rev_induct)
  case Nil
  show ?case by (simp add: process_run_def worker_started_fields)
next
  case (snoc e es)
  then show ?case unfolding process_run_snoc by (rule exit_code_step)
qed

lemma timer_armed_by_signal:
  assumes "k < length (tasks (process_run es worker_started))"
  shows "\<exists>before later. es = before @ Signal # later \<and>
           force_at (tasks (process_run es worker_started) ! k)
             = clock (process_run before worker_started) + FORCE_EXIT_MS"
  using assms
proof (induction es rule: rev_induct)
  case Nil
  then show ?case by (simp add: process_run_def worker_started_fields)
next
  case (snoc e es)
  let ?p = "process_run es worker_started"
  from timer_step [OF snoc.prems [unfolded process_run_snoc]]
  consider "k < length (tasks ?p) \<and> force_at (tasks (process_step ?p e) ! k) = force_at (tasks ?p ! k)"
    | "e = Signal \<and> force_at (tasks (process_step ?p e) ! k) = clock ?p + FORCE_EXIT_MS"
    by blast
  then show ?case
  proof cases
    case 1
    with snoc.IH obtain before later where "es = before @ Signal # later"
      "force_at (tasks ?p ! k) = clock (process_run before worker_started) + FORCE_EXIT_MS"
      by blast
    with 1 show ?thesis
      apply -
      apply (rule exI [of _ before], rule exI [of _ "later @ [e]"])
      apply (simp add: process_run_append process_run_Cons process_run_Nil)
      done
  next
    case 2
    then show ?thesis
      apply -
      apply (rule exI [of _ es], rule exI [of _ "[]"])
      apply (clarsimp simp add: process_run_snoc simp del: process_step.simps)
      done
  qed
qed

lemma exit_zero_run:
  assumes "exit_code (process_run es worker_started) = Some 0"
  shows "\<exists>before k ok later. es = before @ Pool_end_returns k ok # later \<and>
           exit_code (process_run before worker_started) = None \<and>
           shuttingDown (process_run before worker_started) \<and>
           pool_closed (process_run es worker_started) = ok"
  using assms
proof (induction es rule: rev_induct)
  case Nil
  then show ?case by (simp add: process_run_def worker_started_fields)
next
  case (snoc e es)
  let ?p = "process_run es worker_started"
  from exit_zero_step [OF snoc.prems [unfolded process_run_snoc]]
  consider "exit_code ?p = Some 0 \<and> process_step ?p e = ?p"
    | k ok where "exit_code ?p = None" "e = Pool_end_returns k ok" "k < length (tasks ?p)"
      "pool_closed (process_step ?p e) = (pool_closed ?p \<or> ok)"
    by blast
  then show ?case
  proof cases
    case 1
    with snoc.IH obtain before k ok later
      where "es = before @ Pool_end_returns k ok # later"
        "exit_code (process_run before worker_started) = None"
        "shuttingDown (process_run before worker_started)"
        "pool_closed ?p = ok"
      by blast
    with 1 show ?thesis
      apply -
      apply (rule exI [of _ before], rule exI [of _ k], rule exI [of _ ok], rule exI [of _ "later @ [e]"])
      apply (simp add: process_run_append process_run_Cons process_run_Nil)
      done
  next
    case 2
    from process_inv_run [of es] 2(1,3) have "\<not> pool_closed ?p" "shuttingDown ?p"
      by (auto simp: process_inv_def)
    with 2 show ?thesis
      apply -
      apply (rule exI [of _ es], rule exI [of _ k], rule exI [of _ ok], rule exI [of _ "[]"])
      apply (simp add: process_run_append process_run_Cons process_run_Nil)
      done
  qed
qed

lemma exit_one_run:
  assumes "exit_code (process_run es worker_started) = Some 1"
  shows "\<exists>before later. es = before @ Signal # later \<and>
           clock (process_run before worker_started) + FORCE_EXIT_MS
             \<le> clock (process_run es worker_started)"
  using assms
proof (induction es rule: rev_induct)
  case Nil
  then show ?case by (simp add: process_run_def worker_started_fields)
next
  case (snoc e es)
  let ?p = "process_run es worker_started"
  from exit_one_step [OF snoc.prems [unfolded process_run_snoc]]
  consider "exit_code ?p = Some 1 \<and> process_step ?p e = ?p"
    | "exit_code ?p = None" "tasks ?p \<noteq> []"
      "clock (process_step ?p e) = next_due (map force_at (tasks ?p))"
    by auto
  then show ?case
  proof cases
    case 1
    with snoc.IH obtain before later where "es = before @ Signal # later"
      "clock (process_run before worker_started) + FORCE_EXIT_MS \<le> clock ?p"
      by blast
    with 1 show ?thesis
      apply -
      apply (rule exI [of _ before], rule exI [of _ "later @ [e]"])
      apply (simp add: process_run_append process_run_Cons process_run_Nil)
      done
  next
    case 2
    from next_due_armed [OF 2(2)] obtain k where k: "k < length (tasks ?p)"
      "next_due (map force_at (tasks ?p)) = force_at (tasks ?p ! k)"
      by blast
    from timer_armed_by_signal [OF k(1)] obtain before later where "es = before @ Signal # later"
      "force_at (tasks ?p ! k) = clock (process_run before worker_started) + FORCE_EXIT_MS"
      by blast
    with 2 k show ?thesis
      apply -
      apply (rule exI [of _ before], rule exI [of _ "later @ [e]"])
      apply (simp add: process_run_append process_run_Cons process_run_Nil)
      done
  qed
qed

lemma deadline_armed:
  assumes running: "exit_code (process_run (before @ Signal # later) worker_started) = None"
  shows "\<exists>t\<in>set (tasks (process_run (before @ Signal # later) worker_started)).
           force_at t = clock (process_run before worker_started) + FORCE_EXIT_MS"
proof -
  let ?p = "process_run before worker_started"
  let ?s = "process_step ?p Signal"
  let ?q = "process_run (before @ Signal # later) worker_started"
  let ?k = "length (tasks ?p)"
  have q: "?q = process_run later ?s"
    by (simp add: process_run_def)
  from running have "exit_code (process_run (before @ [Signal]) worker_started) = None"
    using running_prefix [of "before @ [Signal]" later worker_started] by simp
  then have "exit_code ?p = None"
    using running_prefix [of before "[Signal]" worker_started] by simp
  then have armed: "?k < length (tasks ?s)" "force_at (tasks ?s ! ?k) = clock ?p + FORCE_EXIT_MS"
    by (simp_all add: Let_def)
  from timer_kept_run [OF armed(1), of later] armed(2)
  have "?k < length (tasks ?q)" "force_at (tasks ?q ! ?k) = clock ?p + FORCE_EXIT_MS"
    unfolding q by simp_all
  then show ?thesis
    by (metis nth_mem)
qed

lemma deadline_forces_exit:
  assumes running: "exit_code (process_run (before @ Signal # later) worker_started) = None"
  shows "clock (process_run (before @ Signal # later) worker_started)
           < clock (process_run before worker_started) + FORCE_EXIT_MS"
    and "clock (process_run before worker_started) + FORCE_EXIT_MS
           \<le> clock (process_run (before @ Signal # later) worker_started) + int ms \<Longrightarrow>
         exit_code (process_run (before @ Signal # later @ [Advance ms]) worker_started) = Some 1"
proof -
  let ?q = "process_run (before @ Signal # later) worker_started"
  from deadline_armed [OF running] obtain t where t: "t \<in> set (tasks ?q)"
    "force_at t = clock (process_run before worker_started) + FORCE_EXIT_MS"
    by blast
  from process_inv_run [of "before @ Signal # later"] running t
  show "clock ?q < clock (process_run before worker_started) + FORCE_EXIT_MS"
    by (auto simp: process_inv_def)
  assume "clock (process_run before worker_started) + FORCE_EXIT_MS \<le> clock ?q + int ms"
  with next_due_least [OF t(1)] t(2)
  have "tasks ?q \<noteq> [] \<and> next_due (map force_at (tasks ?q)) \<le> clock ?q + int ms"
    using t(1) by auto
  with running have "exit_code (process_step ?q (Advance ms)) = Some 1"
    by simp
  moreover have "process_run (before @ Signal # later @ [Advance ms]) worker_started
      = process_step ?q (Advance ms)"
    by (simp add: process_run_def)
  ultimately show "exit_code (process_run (before @ Signal # later @ [Advance ms]) worker_started)
      = Some 1"
    by simp
qed

text \<open>
  After a call of \<open>shutdown\<close> that finds no claim attempt in flight, the loop dispatches
  no job any more: a task awaits \<^verbatim>\<open>pool.end()\<close> only while the counter is zero.
\<close>

definition drained_inv :: "process \<Rightarrow> bool" where
  "drained_inv p \<longleftrightarrow>
     shuttingDown p \<and> loop p \<noteq> Loop_claiming \<and> 0 \<le> activeRenders p \<and>
     (\<forall>t\<in>set (tasks p). graceful t = Closing_pool \<longrightarrow> activeRenders p = 0) \<and>
     (exit_code p = Some 0 \<longrightarrow> activeRenders p = 0)"

lemma set_update_graceful:
  "t \<in> set (ts[k := (ts ! k)\<lparr>graceful := g\<rparr>]) \<Longrightarrow> t \<in> set ts \<or> graceful t = g"
  by (cases "k < length ts") (auto simp: set_conv_nth nth_list_update split: if_splits)

lemma drained_inv_step:
  assumes "drained_inv p"
  shows "drained_inv (process_step p e)"
proof (cases "exit_code p = None")
  case False
  with assms show ?thesis by (simp add: exited_step)
next
  case True
  show ?thesis
  proof (cases e)
    case (Graceful_wakes k)
    with assms True show ?thesis
      by (auto simp: drained_inv_def graceful_head_def dest!: set_update_graceful split: if_splits)
  next
    case Signal
    with assms True show ?thesis
      by (auto simp: drained_inv_def Let_def graceful_head_def split: if_splits)
  next
    case Sleep_ends
    with assms True show ?thesis
      by (auto simp: drained_inv_def loop_head_def)
  next
    case (Claim_returns r)
    with assms True show ?thesis
      by (auto simp: drained_inv_def)
  next
    case Job_finishes
    with assms True show ?thesis
      by (auto simp: drained_inv_def)
  next
    case (Pool_end_returns k ok)
    with assms True show ?thesis
      by (auto simp: drained_inv_def)
  next
    case (Advance ms)
    with assms True show ?thesis
      by (auto simp: drained_inv_def)
  qed
qed

lemma drained_inv_run: "drained_inv p \<Longrightarrow> drained_inv (process_run es p)"
  by (induction es rule: rev_induct)
    (simp add: process_run_def, simp add: process_run_snoc drained_inv_step)

lemma exit_zero_drained:
  assumes first: "\<not> shuttingDown (process_run before worker_started)"
    and idle: "loop (process_run before worker_started) \<noteq> Loop_claiming"
    and exit: "exit_code (process_run (before @ Signal # later) worker_started) = Some 0"
  shows "activeRenders (process_run (before @ Signal # later) worker_started) = 0"
proof -
  let ?p = "process_run before worker_started"
  from process_inv_run [of before] first have p: "tasks ?p = []" "exit_code ?p = None"
    "0 \<le> activeRenders ?p"
    by (auto simp: process_inv_def)
  with idle have "drained_inv (process_step ?p Signal)"
    by (auto simp: drained_inv_def Let_def graceful_head_def)
  from drained_inv_run [OF this, of later] exit show ?thesis
    by (simp add: drained_inv_def process_run_append process_run_Cons process_run_Nil)
qed

text \<open>
  Claim C8.  After a call of \<open>shutdown\<close> the worker loop never calls \<open>getNextJob\<close>
  again: the number of claim attempts stays what it was when the flag was set.  The
  process exits with code 0 only through \<open>gracefulShutdown\<close>, after the flag was set
  and \<^verbatim>\<open>pool.end()\<close> was awaited; the pool is closed at the exit exactly when that call
  resolved, for its rejection is caught and logged and the exit code is 0 all the same.
  When the first call of \<open>shutdown\<close> finds no claim attempt in flight, the process
  exits with code 0 only with the counter of active renders at zero.  The process exits
  with code 1 only at least 30000 ms after a call of \<open>shutdown\<close>.  A running process
  is less than 30000 ms past every call of \<open>shutdown\<close>: when time goes on to the
  moment 30000 ms after a call and the process has not exited before, it exits with
  code 1 at that moment, whatever the counter of active renders.  No other exit code
  arises once the loop runs.
\<close>

theorem shutdown_stops_claims_and_bounds_exit:
  "claims (process_run (es @ Signal # es') worker_started)
     = claims (process_run (es @ [Signal]) worker_started) \<and>
   (exit_code (process_run es worker_started) = Some 0 \<longrightarrow>
      (\<exists>before k ok later. es = before @ Pool_end_returns k ok # later \<and>
         exit_code (process_run before worker_started) = None \<and>
         shuttingDown (process_run before worker_started) \<and>
         pool_closed (process_run es worker_started) = ok)) \<and>
   (\<not> shuttingDown (process_run es worker_started) \<and>
    loop (process_run es worker_started) \<noteq> Loop_claiming \<and>
    exit_code (process_run (es @ Signal # es') worker_started) = Some 0 \<longrightarrow>
      activeRenders (process_run (es @ Signal # es') worker_started) = 0) \<and>
   (exit_code (process_run es worker_started) = Some 1 \<longrightarrow>
      (\<exists>before later. es = before @ Signal # later \<and>
         clock (process_run before worker_started) + 30000
           \<le> clock (process_run es worker_started))) \<and>
   (exit_code (process_run (es @ Signal # es') worker_started) = None \<longrightarrow>
      clock (process_run (es @ Signal # es') worker_started)
        < clock (process_run es worker_started) + 30000 \<and>
      (\<forall>ms. clock (process_run es worker_started) + 30000
               \<le> clock (process_run (es @ Signal # es') worker_started) + int ms \<longrightarrow>
         exit_code (process_run (es @ Signal # es' @ [Advance ms]) worker_started) = Some 1)) \<and>
   exit_code (process_run es worker_started) \<in> {None, Some 0, Some 1}"
proof (intro conjI impI allI)
  show "claims (process_run (es @ Signal # es') worker_started)
     = claims (process_run (es @ [Signal]) worker_started)"
    by (rule no_claim_after_signal)
next
  assume "exit_code (process_run es worker_started) = Some 0"
  then show "\<exists>before k ok later. es = before @ Pool_end_returns k ok # later \<and>
         exit_code (process_run before worker_started) = None \<and>
         shuttingDown (process_run before worker_started) \<and>
         pool_closed (process_run es worker_started) = ok"
    by (rule exit_zero_run)
next
  assume "\<not> shuttingDown (process_run es worker_started) \<and>
    loop (process_run es worker_started) \<noteq> Loop_claiming \<and>
    exit_code (process_run (es @ Signal # es') worker_started) = Some 0"
  then show "activeRenders (process_run (es @ Signal # es') worker_started) = 0"
    using exit_zero_drained [of es es'] by simp
next
  assume "exit_code (process_run es worker_started) = Some 1"
  from exit_one_run [OF this]
  show "\<exists>before later. es = before @ Signal # later \<and>
         clock (process_run before worker_started) + 30000
           \<le> clock (process_run es worker_started)"
    by (simp add: FORCE_EXIT_MS_def)
next
  assume "exit_code (process_run (es @ Signal # es') worker_started) = None"
  from deadline_forces_exit(1) [OF this]
  show "clock (process_run (es @ Signal # es') worker_started)
        < clock (process_run es worker_started) + 30000"
    by (simp add: FORCE_EXIT_MS_def)
next
  fix ms
  assume "exit_code (process_run (es @ Signal # es') worker_started) = None"
    and "clock (process_run es worker_started) + 30000
               \<le> clock (process_run (es @ Signal # es') worker_started) + int ms"
  then show "exit_code (process_run (es @ Signal # es' @ [Advance ms]) worker_started) = Some 1"
    using deadline_forces_exit(2) [of es es' ms] by (simp add: FORCE_EXIT_MS_def)
next
  show "exit_code (process_run es worker_started) \<in> {None, Some 0, Some 1}"
    by (rule exit_code_run)
qed

theorem shutdown_stops_claims_and_bounds_exit_witness:
  "claims (process_run ([Claim_returns Claimed] @ Signal # [Claim_returns Claimed, Sleep_ends])
            worker_started) = 2 \<and>
   exit_code (process_run ([Claim_returns Claimed, Claim_returns No_job] @ Signal #
                [Graceful_wakes 0, Job_finishes, Graceful_wakes 0, Pool_end_returns 0 True])
                worker_started) = Some 0 \<and>
   pool_closed (process_run ([Claim_returns Claimed, Claim_returns No_job] @ Signal #
                [Graceful_wakes 0, Job_finishes, Graceful_wakes 0, Pool_end_returns 0 True])
                worker_started) \<and>
   activeRenders (process_run ([Claim_returns Claimed, Claim_returns No_job] @ Signal #
                [Graceful_wakes 0, Job_finishes, Graceful_wakes 0, Pool_end_returns 0 True])
                worker_started) = 0 \<and>
   exit_code (process_run [Claim_returns Claimed, Signal, Advance 40000] worker_started) = Some 1 \<and>
   clock (process_run [Claim_returns Claimed, Signal, Advance 40000] worker_started) = 30000 \<and>
   (\<exists>before later.
      [Claim_returns Claimed, Signal, Advance 40000] = before @ Signal # later \<and>
      clock (process_run before worker_started) + 30000
        \<le> clock (process_run [Claim_returns Claimed, Signal, Advance 40000] worker_started)) \<and>
   activeRenders (process_run ([Claim_returns Claimed] @ Signal # [Advance 29999])
                    worker_started) = 1 \<and>
   exit_code (process_run ([Claim_returns Claimed] @ Signal # [Advance 29999])
                worker_started) = None \<and>
   exit_code (process_run ([Claim_returns Claimed] @ Signal # [Advance 29999] @ [Advance 1])
                worker_started) = Some 1"
proof -
  note run = process_run_def worker_started_def loop_head_def graceful_head_def
    MAX_PARALLEL_def FORCE_EXIT_MS_def Let_def
  let ?graceful = "[Claim_returns Claimed, Claim_returns No_job] @ Signal #
                    [Graceful_wakes 0, Job_finishes, Graceful_wakes 0, Pool_end_returns 0 True]"
  let ?forced = "[Claim_returns Claimed, Signal, Advance 40000]"
  have flag: "claims (process_run ([Claim_returns Claimed] @ [Signal]) worker_started) = 2"
    by (simp add: run)
  have zero: "exit_code (process_run ?graceful worker_started) = Some 0"
    by (simp add: run)
  have idle: "\<not> shuttingDown (process_run [Claim_returns Claimed, Claim_returns No_job] worker_started)"
    "loop (process_run [Claim_returns Claimed, Claim_returns No_job] worker_started) \<noteq> Loop_claiming"
    by (simp_all add: run)
  have one: "exit_code (process_run ?forced worker_started) = Some 1"
    "clock (process_run ?forced worker_started) = 30000"
    by (simp_all add: run)
  have late: "activeRenders (process_run ([Claim_returns Claimed] @ Signal # [Advance 29999])
                worker_started) = 1"
    "exit_code (process_run ([Claim_returns Claimed] @ Signal # [Advance 29999])
       worker_started) = None"
    "clock (process_run [Claim_returns Claimed] worker_started) + 30000
       \<le> clock (process_run ([Claim_returns Claimed] @ Signal # [Advance 29999]) worker_started)
          + int 1"
    by (simp_all add: run)
  from shutdown_stops_claims_and_bounds_exit
    [of "[Claim_returns Claimed]" "[Claim_returns Claimed, Sleep_ends]"] flag
  have a: "claims (process_run ([Claim_returns Claimed] @ Signal # [Claim_returns Claimed, Sleep_ends])
            worker_started) = 2"
    by simp
  from shutdown_stops_claims_and_bounds_exit [of ?graceful "[]"] zero
  obtain before k ok later where b: "?graceful = before @ Pool_end_returns k ok # later"
      "pool_closed (process_run ?graceful worker_started) = ok"
    by blast
  have "ok"
  proof -
    from b(1) have "Pool_end_returns k ok \<in> set ?graceful"
      by (metis in_set_conv_decomp)
    then show ?thesis by simp
  qed
  with b(2) have closed: "pool_closed (process_run ?graceful worker_started)"
    by simp
  from shutdown_stops_claims_and_bounds_exit
    [of "[Claim_returns Claimed, Claim_returns No_job]" "[Graceful_wakes 0, Job_finishes,
       Graceful_wakes 0, Pool_end_returns 0 True]"] idle zero
  have drained: "activeRenders (process_run ?graceful worker_started) = 0"
    by blast
  from shutdown_stops_claims_and_bounds_exit [of ?forced "[]"] one(1)
  have c: "\<exists>before later. ?forced = before @ Signal # later \<and>
      clock (process_run before worker_started) + 30000
        \<le> clock (process_run ?forced worker_started)"
    by blast
  from shutdown_stops_claims_and_bounds_exit [of "[Claim_returns Claimed]" "[Advance 29999]"]
    late(2,3)
  have d: "exit_code (process_run ([Claim_returns Claimed] @ Signal # [Advance 29999] @ [Advance 1])
      worker_started) = Some 1"
    by blast
  from a zero closed drained one c late(1,2) d show ?thesis
    by (intro conjI)
qed

text \<open>
  A claim that is in flight when the flag is set still returns its job, which is
  dispatched: the counter is positive when \<^verbatim>\<open>pool.end()\<close> returns and the process exits
  with code 0.
\<close>

lemma claim_in_flight_is_dispatched:
  "activeRenders (process_run [Signal, Claim_returns Claimed, Pool_end_returns 0 True]
     worker_started) = 1 \<and>
   exit_code (process_run [Signal, Claim_returns Claimed, Pool_end_returns 0 True]
     worker_started) = Some 0"
  by (simp add: process_run_def worker_started_def loop_head_def graceful_head_def
      MAX_PARALLEL_def Let_def)

text \<open>
  A second signal calls \<open>shutdown\<close> again while the first call awaits \<^verbatim>\<open>pool.end()\<close>;
  the second \<^verbatim>\<open>pool.end()\<close> rejects, the rejection is caught, and the process exits
  with code 0 while the pool is not closed.
\<close>

theorem exit_zero_with_pool_not_closed:
  "exit_code (process_run [Signal, Signal, Pool_end_returns 1 False] worker_started) = Some 0 \<and>
   \<not> pool_closed (process_run [Signal, Signal, Pool_end_returns 1 False] worker_started)"
  by (simp add: process_run_def worker_started_def loop_head_def graceful_head_def
      MAX_PARALLEL_def Let_def)

subsection \<open>Concurrent claims: what holds between round trips\<close>

lemma ids_of_Nil: "ids_of f [] = []"
  by (simp add: ids_of_def)

lemma ids_of_Cons:
  "ids_of f (s # ss) = (case f s of None \<Rightarrow> [] | Some i \<Rightarrow> [i]) @ ids_of f ss"
  by (simp add: ids_of_def)

lemma set_ids_of: "set (ids_of f ss) = {i. \<exists>s\<in>set ss. f s = Some i}"
  by (induction ss) (auto simp: ids_of_Nil ids_of_Cons split: option.splits)

lemma length_ids_of: "length (ids_of f ss) \<le> length ss"
  by (induction ss) (auto simp: ids_of_Nil ids_of_Cons split: option.splits)

lemma ids_of_update_same:
  assumes "c < length ss" and "f s' = f (ss ! c)"
  shows "ids_of f (ss[c := s']) = ids_of f ss"
  using assms
proof (induction ss arbitrary: c)
  case Nil
  then show ?case by simp
next
  case (Cons s ss)
  then show ?case by (cases c) (simp_all add: ids_of_Cons)
qed

lemma ids_of_update_new:
  assumes "c < length ss" and "f (ss ! c) = None" and "f s' = Some i"
  shows "set (ids_of f (ss[c := s'])) = insert i (set (ids_of f ss)) \<and>
         (distinct (ids_of f (ss[c := s'])) \<longleftrightarrow>
            distinct (ids_of f ss) \<and> i \<notin> set (ids_of f ss)) \<and>
         length (ids_of f (ss[c := s'])) = Suc (length (ids_of f ss))"
  using assms
proof (induction ss arbitrary: c)
  case Nil
  then show ?case by simp
next
  case (Cons s ss)
  show ?case
  proof (cases c)
    case 0
    with Cons.prems show ?thesis by (auto simp: ids_of_Cons)
  next
    case (Suc k)
    with Cons.prems have "k < length ss" "f (ss ! k) = None" by simp_all
    from Cons.IH [OF this Cons.prems(3)] Suc show ?thesis
      by (cases "f s") (auto simp: ids_of_Cons)
  qed
qed

lemma ids_of_update_gone:
  assumes "c < length ss" and "f s' = None"
  shows "set (ids_of f (ss[c := s'])) \<subseteq> set (ids_of f ss)"
proof
  fix i assume "i \<in> set (ids_of f (ss[c := s']))"
  then obtain s where s: "s \<in> set (ss[c := s'])" "f s = Some i"
    unfolding set_ids_of by blast
  from s(1) have "s = s' \<or> s \<in> set ss"
    using set_update_subset_insert [of ss c s'] by auto
  with s(2) assms(2) have "s \<in> set ss" by auto
  with s(2) show "i \<in> set (ids_of f ss)"
    unfolding set_ids_of by blast
qed

lemma ids_of_update_none:
  assumes "c < length ss" and "f s' = None" and "distinct (ids_of f ss)"
  shows "distinct (ids_of f (ss[c := s'])) \<and>
         set (ids_of f (ss[c := s'])) =
           set (ids_of f ss) - (case f (ss ! c) of None \<Rightarrow> {} | Some i \<Rightarrow> {i})"
  using assms
proof (induction ss arbitrary: c)
  case Nil
  then show ?case by simp
next
  case (Cons s ss)
  from Cons.prems(3) have tail: "distinct (ids_of f ss)"
    by (simp add: ids_of_Cons)
  show ?case
  proof (cases c)
    case 0
    with Cons.prems show ?thesis
      by (cases "f s") (auto simp: ids_of_Cons)
  next
    case (Suc k)
    with Cons.prems have k: "k < length ss" by simp
    note IH = Cons.IH [OF k Cons.prems(2) tail]
    show ?thesis
    proof (cases "f s")
      case None
      with IH Suc show ?thesis by (simp add: ids_of_Cons)
    next
      case (Some x)
      with Cons.prems(3) have fresh: "x \<notin> set (ids_of f ss)"
        by (simp add: ids_of_Cons)
      have "f (ss ! k) \<noteq> Some x"
      proof
        assume "f (ss ! k) = Some x"
        with k have "x \<in> set (ids_of f ss)"
          unfolding set_ids_of using nth_mem by blast
        with fresh show False by simp
      qed
      with IH Suc Some fresh show ?thesis
        by (auto simp: ids_of_Cons split: option.splits)
    qed
  qed
qed

lemma ids_of_distinct_nth:
  assumes "distinct (ids_of f ss)" and "c < length ss" and "c' < length ss" and "c \<noteq> c'"
    and "f (ss ! c) = Some i"
  shows "f (ss ! c') \<noteq> Some i"
  using assms
proof (induction ss arbitrary: c c')
  case Nil
  then show ?case by simp
next
  case (Cons s ss)
  from Cons.prems(1) have tail: "distinct (ids_of f ss)"
    by (simp add: ids_of_Cons)
  show ?case
  proof (cases c)
    case 0
    with Cons.prems obtain k where k: "c' = Suc k" "k < length ss"
      by (cases c') auto
    from 0 Cons.prems(5) have "f s = Some i" by simp
    with Cons.prems(1) have "i \<notin> set (ids_of f ss)"
      by (simp add: ids_of_Cons)
    with k(2) have "f (ss ! k) \<noteq> Some i"
      unfolding set_ids_of using nth_mem by blast
    with k(1) show ?thesis by simp
  next
    case (Suc k)
    with Cons.prems have k: "k < length ss" "f (ss ! k) = Some i" by simp_all
    show ?thesis
    proof (cases c')
      case 0
      from k have "i \<in> set (ids_of f ss)"
        unfolding set_ids_of using nth_mem by blast
      with Cons.prems(1) have "f s \<noteq> Some i"
        by (auto simp: ids_of_Cons)
      with 0 show ?thesis by simp
    next
      case (Suc k')
      with Cons.prems \<open>c = Suc k\<close> have "k' < length ss" "k \<noteq> k'" by simp_all
      from Cons.IH [OF tail k(1) this k(2)] Suc show ?thesis by simp
    qed
  qed
qed

lemma held_won: "held s = Some i \<Longrightarrow> won s = Some i"
  by (cases s) simp_all

lemma held_subset_won: "set (ids_of held ss) \<subseteq> set (ids_of won ss)"
  unfolding set_ids_of using held_won by blast

lemma queued_ids_set_rendering:
  "queued_ids (set_rendering i now db) = queued_ids db - {i}"
proof (rule set_eqI, rule iffI)
  let ?g = "\<lambda>j. if job_id j = i then j\<lparr>status := Rendering, started_at := Some now\<rparr> else j"
  have rows: "render_jobs (set_rendering i now db) = map ?g (render_jobs db)"
    by (simp add: set_rendering_def)
  {
    fix x assume "x \<in> queued_ids (set_rendering i now db)"
    then obtain j' where j': "j' \<in> set (map ?g (render_jobs db))"
      "status j' = Queued" "x = job_id j'"
      unfolding queued_ids_def rows by blast
    from j'(1) obtain j where j: "j \<in> set (render_jobs db)" "j' = ?g j"
      unfolding set_map by (elim imageE)
    show "x \<in> queued_ids db - {i}"
    proof (cases "job_id j = i")
      case True
      with j(2) have "status j' = Rendering" by simp
      with j'(2) show ?thesis by simp
    next
      case False
      with j(2) have "j' = j" by simp
      with j(1) j'(2,3) False show ?thesis unfolding queued_ids_def by blast
    qed
  next
    fix x assume "x \<in> queued_ids db - {i}"
    then obtain j where j: "j \<in> set (render_jobs db)" "status j = Queued" "x = job_id j"
      "job_id j \<noteq> i"
      unfolding queued_ids_def by blast
    from j(4) have "?g j = j" by simp
    moreover from j(1) have "?g j \<in> set (map ?g (render_jobs db))"
      unfolding set_map by (rule imageI)
    ultimately have "j \<in> set (render_jobs (set_rendering i now db))"
      unfolding rows by simp
    with j(2,3) show "x \<in> queued_ids (set_rendering i now db)"
      unfolding queued_ids_def by blast
  }
qed

lemma oldest_unlocked_empty:
  "oldest_unlocked locked db = [] \<longleftrightarrow> queued_ids db \<subseteq> set locked"
  unfolding oldest_unlocked_none queued_ids_def by blast

lemma oldest_unlocked_some:
  assumes "oldest_unlocked locked db = job # rest"
  shows "job_id job \<in> queued_ids db" and "job_id job \<notin> set locked"
  using oldest_unlocked_oldest(2,3,4) [OF assms] unfolding queued_ids_def by blast+

lemma set_update_cases:
  assumes "s \<in> set (ss[c := s'])"
  shows "s = s' \<or> s \<in> set ss"
  using assms set_update_subset_insert [of ss c s'] by auto

lemma set_update_other:
  assumes "s \<in> set ss" and "s \<noteq> ss ! c"
  shows "s \<in> set (ss[c := s'])"
proof -
  from assms(1) obtain k where k: "k < length ss" "ss ! k = s"
    unfolding in_set_conv_nth by blast
  with assms(2) have "k \<noteq> c" by auto
  with k have "ss[c := s'] ! k = s" "k < length (ss[c := s'])" by simp_all
  then show ?thesis unfolding in_set_conv_nth by blast
qed

lemma lock_given_back:
  assumes distinct: "distinct (ids_of won ss)" and c: "c < length ss"
    and mine: "won (ss ! c) = Some i" and free: "held s' = None"
  shows "i \<notin> set (ids_of held (ss[c := s']))"
proof
  assume "i \<in> set (ids_of held (ss[c := s']))"
  then obtain s where s: "s \<in> set (ss[c := s'])" "held s = Some i"
    unfolding set_ids_of by blast
  from s(1) obtain k where k: "k < length ss" "ss[c := s'] ! k = s"
    unfolding in_set_conv_nth by auto
  with s(2) free have "k \<noteq> c" by auto
  with k have "ss ! k = s" by simp
  with s(2) have "won (ss ! k) = Some i" by (simp add: held_won)
  with ids_of_distinct_nth [OF distinct c k(1) \<open>k \<noteq> c\<close> [symmetric] mine]
  show False by simp
qed

lemma won_nth:
  assumes "c < length ss" and "won (ss ! c) = Some i"
  shows "i \<in> set (ids_of won ss)"
  using assms unfolding set_ids_of using nth_mem by blast

text \<open>
  What a round trip does to the locks and to the table: nothing; or it locks a queued
  row that no transaction has locked; or it commits the update of the row it has
  locked; or it ends a transaction that has failed, giving back the lock.
\<close>

lemma caller_statement_cases:
  assumes "caller_statement s now fault locked db = (s', db')"
  shows "(db' = db \<and> won s' = won s \<and> held s' = held s \<and>
            (found_nothing s' \<longrightarrow>
               found_nothing s \<or> (\<exists>stamp. s = Selecting stamp) \<and> oldest_unlocked locked db = [])) \<or>
         (db' = db \<and> fault = None \<and>
            (\<exists>job rest stamp. s = Selecting stamp \<and> oldest_unlocked locked db = job # rest \<and>
               s' = Row_locked job stamp)) \<or>
         (fault = None \<and>
            (\<exists>job stamp. s = Row_updated job stamp \<and> s' = Claim_returned (Some job) \<and>
               db' = set_rendering (job_id job) stamp db)) \<or>
         (db' = db \<and> (\<exists>err lock. s = Recovering err lock \<and> s' = Claim_threw err None))"
  using assms by (cases s) (auto split: option.splits list.splits if_splits)

lemma inv_same:
  assumes inv: "claims_inv Q w" and c: "c < length (sessions w)"
    and same: "won s' = won (sessions w ! c)" "held s' = held (sessions w ! c)"
    and w': "committed w' = committed w" "sessions w' = (sessions w)[c := s']"
  shows "claims_inv Q w'"
proof -
  from c same have "ids_of won (sessions w') = ids_of won (sessions w)"
    "ids_of held (sessions w') = ids_of held (sessions w)"
    unfolding w' by (simp_all add: ids_of_update_same)
  with inv show ?thesis
    unfolding claims_inv_def w'(1) by simp
qed

lemma inv_select_some:
  assumes inv: "claims_inv Q w" and c: "c < length (sessions w)"
    and pc: "sessions w ! c = Selecting stamp"
    and some: "oldest_unlocked (ids_of held (sessions w)) (committed w) = job # rest"
    and w': "committed w' = committed w" "sessions w' = (sessions w)[c := Row_locked job stamp]"
  shows "claims_inv Q w'"
proof -
  let ?i = "job_id job"
  from oldest_unlocked_some [OF some]
  have i: "?i \<in> queued_ids (committed w)" "?i \<notin> set (ids_of held (sessions w))"
    by simp_all
  from c pc have won: "set (ids_of won (sessions w')) = insert ?i (set (ids_of won (sessions w)))"
    "distinct (ids_of won (sessions w')) \<longleftrightarrow>
       distinct (ids_of won (sessions w)) \<and> ?i \<notin> set (ids_of won (sessions w))"
    unfolding w' using ids_of_update_new [of c "sessions w" won "Row_locked job stamp" ?i]
    by simp_all
  from c pc have held: "set (ids_of held (sessions w')) = insert ?i (set (ids_of held (sessions w)))"
    unfolding w' using ids_of_update_new [of c "sessions w" held "Row_locked job stamp" ?i] by simp
  from inv i have fresh: "?i \<notin> set (ids_of won (sessions w))"
    unfolding claims_inv_def by blast
  from inv i fresh show ?thesis
    unfolding claims_inv_def won held w'(1) by blast
qed

lemma inv_commit:
  assumes inv: "claims_inv Q w" and c: "c < length (sessions w)"
    and pc: "sessions w ! c = Row_updated job stamp"
    and w': "committed w' = set_rendering (job_id job) stamp (committed w)"
      "sessions w' = (sessions w)[c := Claim_returned (Some job)]"
  shows "claims_inv Q w'"
proof -
  let ?i = "job_id job"
  from c pc have won: "ids_of won (sessions w') = ids_of won (sessions w)"
    unfolding w' by (simp add: ids_of_update_same)
  from pc have mine: "won (sessions w ! c) = Some ?i" "held (sessions w ! c) = Some ?i"
    by simp_all
  from inv have distinct: "distinct (ids_of won (sessions w))"
    unfolding claims_inv_def by blast
  have queued: "queued_ids (committed w') = queued_ids (committed w) - {?i}"
    unfolding w' by (rule queued_ids_set_rendering)
  have held_sub: "set (ids_of held (sessions w')) \<subseteq> set (ids_of held (sessions w))"
    unfolding w' using c by (intro ids_of_update_gone) simp_all
  have released: "?i \<notin> set (ids_of held (sessions w'))"
    unfolding w' using distinct c mine(1) by (intro lock_given_back) simp_all
  have held_kept: "set (ids_of held (sessions w)) - {?i} \<subseteq> set (ids_of held (sessions w'))"
  proof
    fix x assume "x \<in> set (ids_of held (sessions w)) - {?i}"
    then obtain s where s: "s \<in> set (sessions w)" "held s = Some x" "x \<noteq> ?i"
      unfolding set_ids_of by blast
    with mine(2) have "s \<noteq> sessions w ! c" by auto
    with s(1) have "s \<in> set (sessions w')"
      unfolding w' by (rule set_update_other)
    with s(2) show "x \<in> set (ids_of held (sessions w'))"
      unfolding set_ids_of by blast
  qed
  from c mine(1) have claimed: "?i \<in> set (ids_of won (sessions w))"
    by (rule won_nth)
  from inv held_sub released held_kept claimed show ?thesis
    unfolding claims_inv_def won queued by blast
qed

lemma inv_release:
  assumes inv: "claims_inv Q w" and c: "c < length (sessions w)"
    and pc: "sessions w ! c = Recovering err lock"
    and w': "committed w' = committed w" "sessions w' = (sessions w)[c := Claim_threw err None]"
  shows "claims_inv Q w'"
proof -
  let ?mine = "case map_option job_id lock of None \<Rightarrow> {} | Some i \<Rightarrow> {i}"
  from inv have distinct: "distinct (ids_of won (sessions w))"
    and locked: "set (ids_of held (sessions w)) \<subseteq> queued_ids (committed w)"
    unfolding claims_inv_def by blast+
  from ids_of_update_none [OF c _ distinct, of "Claim_threw err None"] pc
  have won: "distinct (ids_of won (sessions w'))"
    "set (ids_of won (sessions w')) = set (ids_of won (sessions w)) - ?mine"
    unfolding w' by simp_all
  have held_sub: "set (ids_of held (sessions w')) \<subseteq> set (ids_of held (sessions w))"
    unfolding w' using c by (intro ids_of_update_gone) simp_all
  have held_kept: "set (ids_of held (sessions w)) - ?mine \<subseteq> set (ids_of held (sessions w'))"
  proof
    fix x assume x: "x \<in> set (ids_of held (sessions w)) - ?mine"
    then obtain s where s: "s \<in> set (sessions w)" "held s = Some x"
      unfolding set_ids_of by blast
    from x pc s(2) have "s \<noteq> sessions w ! c"
      by (cases lock) auto
    with s(1) have "s \<in> set (sessions w')"
      unfolding w' by (rule set_update_other)
    with s(2) show "x \<in> set (ids_of held (sessions w'))"
      unfolding set_ids_of by blast
  qed
  have mine: "?mine \<subseteq> queued_ids (committed w)"
  proof (cases lock)
    case None
    then show ?thesis by simp
  next
    case (Some job)
    with c pc have "job_id job \<in> set (ids_of held (sessions w))"
      unfolding set_ids_of using nth_mem [OF c] by force
    with locked Some show ?thesis by auto
  qed
  from inv won held_sub held_kept mine show ?thesis
    unfolding claims_inv_def w'(1) by blast
qed

lemma caller_step_fields:
  assumes "caller t < length (sessions w)"
    and "caller_statement (sessions w ! caller t) (at_time t) (failing t)
           (ids_of held (sessions w)) (committed w) = (s', db')"
  shows "committed (caller_step w t) = db'"
    and "sessions (caller_step w t) = (sessions w)[caller t := s']"
  using assms by (simp_all add: caller_step_def)

lemma caller_step_inv:
  assumes inv: "claims_inv Q w"
  shows "claims_inv Q (caller_step w t)"
proof (cases "caller t < length (sessions w)")
  case False
  then show ?thesis using inv by (simp add: caller_step_def)
next
  case c: True
  obtain s' db' where stmt:
    "caller_statement (sessions w ! caller t) (at_time t) (failing t)
       (ids_of held (sessions w)) (committed w) = (s', db')"
    by (cases "caller_statement (sessions w ! caller t) (at_time t) (failing t)
       (ids_of held (sessions w)) (committed w)")
  note w' = caller_step_fields [OF c stmt]
  from caller_statement_cases [OF stmt]
  consider (same) "db' = committed w" "won s' = won (sessions w ! caller t)"
      "held s' = held (sessions w ! caller t)"
    | (lock) job rest stamp where "db' = committed w" "sessions w ! caller t = Selecting stamp"
      "oldest_unlocked (ids_of held (sessions w)) (committed w) = job # rest"
      "s' = Row_locked job stamp"
    | (commit) job stamp where "sessions w ! caller t = Row_updated job stamp"
      "s' = Claim_returned (Some job)" "db' = set_rendering (job_id job) stamp (committed w)"
    | (release) err lock where "db' = committed w" "sessions w ! caller t = Recovering err lock"
      "s' = Claim_threw err None"
    by blast
  then show ?thesis
  proof cases
    case same
    with w' show ?thesis
      by (intro inv_same [OF inv c same(2,3)]) simp_all
  next
    case lock
    with w' show ?thesis
      by (intro inv_select_some [OF inv c lock(2,3)]) simp_all
  next
    case commit
    with w' show ?thesis
      by (intro inv_commit [OF inv c commit(1)]) simp_all
  next
    case release
    with w' show ?thesis
      by (intro inv_release [OF inv c release(2)]) simp_all
  qed
qed

lemma interleave_snoc: "interleave (schedule @ [t]) w = caller_step (interleave schedule w) t"
  by (simp add: interleave_def)

lemma interleave_inv:
  assumes "claims_inv Q w"
  shows "claims_inv Q (interleave schedule w)"
  using assms
  by (induction schedule rule: rev_induct)
    (simp add: interleave_def, simp add: interleave_snoc caller_step_inv)

lemma length_caller_step: "length (sessions (caller_step w t)) = length (sessions w)"
  by (simp add: caller_step_def split: prod.splits)

lemma length_interleave: "length (sessions (interleave schedule w)) = length (sessions w)"
  by (induction schedule rule: rev_induct)
    (simp add: interleave_def, simp add: interleave_snoc length_caller_step)

lemma ids_of_replicate: "f s = None \<Longrightarrow> ids_of f (replicate n s) = []"
  by (induction n) (auto simp: ids_of_Nil ids_of_Cons)

lemma callers_start_inv: "claims_inv (queued_ids db) (callers_start N db)"
proof -
  have "ids_of won (replicate N (Connecting 1)) = []" "ids_of held (replicate N (Connecting 1)) = []"
    by (simp_all add: ids_of_replicate)
  then show ?thesis
    unfolding claims_inv_def callers_start_def by simp
qed

subsection \<open>Concurrent claims when no round trip fails\<close>

lemma unfailed_statement:
  assumes "caller_statement s now None locked db = (s', db')" and "unfailed s"
  shows "unfailed s'"
  using assms by (cases s) (auto split: list.splits)

lemma caller_step_unfailed:
  assumes inv: "claims_inv Q w" and un: "unfailed_inv Q w" and quiet: "failing t = None"
  shows "unfailed_inv Q (caller_step w t)"
proof (cases "caller t < length (sessions w)")
  case False
  then show ?thesis using un by (simp add: caller_step_def)
next
  case c: True
  let ?s = "sessions w ! caller t"
  obtain s' db' where stmt:
    "caller_statement ?s (at_time t) (failing t) (ids_of held (sessions w)) (committed w) = (s', db')"
    by (cases "caller_statement ?s (at_time t) (failing t) (ids_of held (sessions w)) (committed w)")
  note w' = caller_step_fields [OF c stmt]
  from un c have mine: "unfailed ?s"
    unfolding unfailed_inv_def using nth_mem by blast
  with stmt quiet have new: "unfailed s'"
    by (simp add: unfailed_statement)
  have all: "\<forall>s\<in>set (sessions (caller_step w t)). unfailed s"
  proof
    fix s assume "s \<in> set (sessions (caller_step w t))"
    then have "s = s' \<or> s \<in> set (sessions w)"
      unfolding w' by (rule set_update_cases)
    with new un show "unfailed s"
      unfolding unfailed_inv_def by blast
  qed
  from caller_statement_cases [OF stmt] mine
  have kinds: "(won s' = won ?s \<and>
        (found_nothing s' \<longrightarrow> found_nothing ?s \<or>
           oldest_unlocked (ids_of held (sessions w)) (committed w) = [])) \<or>
      (won ?s = None \<and> (\<exists>i. won s' = Some i))"
    by (cases ?s) auto
  have grows: "set (ids_of won (sessions w)) \<subseteq> set (ids_of won (sessions (caller_step w t)))"
    using kinds
  proof (elim disjE conjE exE)
    assume "won s' = won ?s"
    with c have "ids_of won (sessions (caller_step w t)) = ids_of won (sessions w)"
      unfolding w' by (simp add: ids_of_update_same)
    then show ?thesis by simp
  next
    fix i assume "won ?s = None" "won s' = Some i"
    from ids_of_update_new [OF c this] show ?thesis
      unfolding w' by blast
  qed
  have found: "found_nothing s' \<longrightarrow> found_nothing ?s \<or>
         oldest_unlocked (ids_of held (sessions w)) (committed w) = []"
    using kinds
  proof (elim disjE conjE exE)
    assume "found_nothing s' \<longrightarrow> found_nothing ?s \<or>
           oldest_unlocked (ids_of held (sessions w)) (committed w) = []"
    then show ?thesis .
  next
    fix i assume "won s' = Some i"
    then show ?thesis by (cases s' rule: found_nothing.cases) simp_all
  qed
  have "Q \<subseteq> set (ids_of won (sessions w))"
    if some: "\<exists>s\<in>set (sessions (caller_step w t)). found_nothing s"
  proof -
    from some obtain s where s: "s \<in> set (sessions (caller_step w t))" "found_nothing s"
      by blast
    from s(1) have "s = s' \<or> s \<in> set (sessions w)"
      unfolding w' by (rule set_update_cases)
    with s(2) found nth_mem [OF c]
    consider "\<exists>s\<in>set (sessions w). found_nothing s"
      | "oldest_unlocked (ids_of held (sessions w)) (committed w) = []"
      by blast
    then show ?thesis
    proof cases
      case 1
      with un show ?thesis unfolding unfailed_inv_def by blast
    next
      case 2
      then have "queued_ids (committed w) \<subseteq> set (ids_of held (sessions w))"
        by (simp add: oldest_unlocked_empty)
      with inv held_subset_won [of "sessions w"] show ?thesis
        unfolding claims_inv_def by blast
    qed
  qed
  with grows all show ?thesis
    unfolding unfailed_inv_def by blast
qed

lemma interleave_unfailed:
  assumes "claims_inv Q w" and "unfailed_inv Q w" and "\<forall>t\<in>set schedule. failing t = None"
  shows "unfailed_inv Q (interleave schedule w)"
  using assms(3)
proof (induction schedule rule: rev_induct)
  case Nil
  with assms(2) show ?case by (simp add: interleave_def)
next
  case (snoc t schedule)
  then have "unfailed_inv Q (interleave schedule w)" "failing t = None"
    by simp_all
  with interleave_inv [OF assms(1), of schedule] show ?case
    unfolding interleave_snoc by (intro caller_step_unfailed)
qed

lemma callers_start_unfailed: "unfailed_inv Q (callers_start N db)"
  by (simp add: unfailed_inv_def callers_start_def)

subsection \<open>One caller on its own is \<open>getNextJob\<close>\<close>

text \<open>
  The round trips of one caller, made one after the other, are \<open>getNextJob\<close>: the same
  result, the same error, the same committed table, for every pattern of failing round
  trips and every set of rows locked by others.
\<close>

lemma single_caller_is_getNextJob:
  assumes fresh: "txn w = None"
    and big: "getNextJob locked now w = (r, w')"
    and small: "caller_run 9 (Connecting 1) now (faults w) locked (store w) = (pc, db)"
  shows "db = store w' \<and>
         (case r of Inr res \<Rightarrow> pc = Claim_returned res | Inl e \<Rightarrow> (\<exists>lock. pc = Claim_threw e lock))"
proof -
  obtain S C fs where w: "w = \<lparr>store = S, txn = None, faults = fs, console = C\<rparr>"
    using fresh by (cases w) auto
  show ?thesis
    using big small unfolding w
    by (auto simp: run_simps numeral_eq_Suc exhausted_message_def
        split: list.splits option.splits if_splits)
qed

lemma own_lock_is_not_read:
  assumes "c < length ss"
  shows "caller_statement (ss ! c) now f (ids_of held ss) db =
         caller_statement (ss ! c) now f (ids_of held (ss[c := Connecting 1])) db"
proof (cases "ss ! c")
  case (Selecting stamp)
  with assms have "ids_of held (ss[c := Connecting 1]) = ids_of held ss"
    by (intro ids_of_update_same) simp_all
  then show ?thesis by simp
qed simp_all

lemma single_turns_are_caller_run:
  assumes "c < length ss"
  shows "interleave (map (\<lambda>f. \<lparr>caller = c, at_time = now, failing = f\<rparr>) fs)
           \<lparr>committed = db, sessions = ss\<rparr> =
         (case caller_run (length fs) (ss ! c) now fs (ids_of held (ss[c := Connecting 1])) db of
            (pc', db') \<Rightarrow> \<lparr>committed = db', sessions = ss[c := pc']\<rparr>)"
  using assms
proof (induction fs arbitrary: db ss)
  case Nil
  then show ?case by (simp add: interleave_def)
next
  case (Cons f fs)
  let ?L = "ids_of held (ss[c := Connecting 1])"
  obtain pc1 db1 where stmt: "caller_statement (ss ! c) now f ?L db = (pc1, db1)"
    by (cases "caller_statement (ss ! c) now f ?L db")
  with own_lock_is_not_read [OF Cons.prems, of now f db]
  have step: "caller_step \<lparr>committed = db, sessions = ss\<rparr> \<lparr>caller = c, at_time = now, failing = f\<rparr>
      = \<lparr>committed = db1, sessions = ss[c := pc1]\<rparr>"
    using Cons.prems by (simp add: caller_step_def)
  from Cons.prems have c: "c < length (ss[c := pc1])" by simp
  from Cons.IH [OF c, of db1] Cons.prems stmt step show ?case
    by (simp add: interleave_def)
qed

subsection \<open>Concurrent claims are exclusive and counted\<close>

lemma claimed_length: "length (claimed_jobs w) \<le> length (ids_of won (sessions w))"
proof -
  have "length (concat (map (\<lambda>s. case s of Claim_returned (Some job) \<Rightarrow> [job] | _ \<Rightarrow> []) ss))
          \<le> length (ids_of won ss)" for ss
  proof (induction ss)
    case Nil
    show ?case by (simp add: ids_of_Nil)
  next
    case (Cons s ss)
    then show ?case
      by (cases s) (auto simp: ids_of_Cons split: option.splits)
  qed
  then show ?thesis by (simp add: claimed_jobs_def)
qed

lemma returned_length:
  assumes "\<forall>s\<in>set ss. \<exists>r. s = Claim_returned r"
  shows "length (concat (map (\<lambda>s. case s of Claim_returned (Some job) \<Rightarrow> [job] | _ \<Rightarrow> []) ss))
           = length (ids_of won ss)"
  using assms
proof (induction ss)
  case Nil
  show ?case by (simp add: ids_of_Nil)
next
  case (Cons s ss)
  then obtain r where "s = Claim_returned r" by auto
  with Cons show ?case by (cases r) (simp_all add: ids_of_Cons)
qed

lemma all_claimed_length:
  assumes "\<forall>s\<in>set ss. \<exists>r. s = Claim_returned r" and "Claim_returned None \<notin> set ss"
  shows "length (ids_of won ss) = length ss"
  using assms
proof (induction ss)
  case Nil
  show ?case by (simp add: ids_of_Nil)
next
  case (Cons s ss)
  then obtain r where "s = Claim_returned r" by auto
  with Cons show ?case by (cases r) (simp_all add: ids_of_Cons)
qed

lemma card_queued_ids:
  assumes "distinct (map job_id (render_jobs db))"
  shows "card (queued_ids db) = length (filter (\<lambda>j. status j = Queued) (render_jobs db))"
proof -
  have "queued_ids db = set (map job_id (filter (\<lambda>j. status j = Queued) (render_jobs db)))"
    unfolding queued_ids_def by auto
  moreover from assms have "distinct (map job_id (filter (\<lambda>j. status j = Queued) (render_jobs db)))"
    by (rule distinct_map_filter)
  ultimately show ?thesis
    using distinct_card [of "map job_id (filter (\<lambda>j. status j = Queued) (render_jobs db))"]
    by (simp only: length_map)
qed

lemma finite_queued_ids: "finite (queued_ids db)"
  unfolding queued_ids_def by simp

lemma claims_bounded:
  assumes inv: "claims_inv Q w" and fin: "finite Q"
  shows "length (claimed_jobs w) \<le> min (length (sessions w)) (card Q)"
proof -
  let ?won = "ids_of won (sessions w)"
  from inv have "distinct ?won" unfolding claims_inv_def by blast
  then have card: "card (set ?won) = length ?won" by (rule distinct_card)
  from inv have sub: "set ?won \<subseteq> Q" unfolding claims_inv_def by blast
  with fin card have "length ?won \<le> card Q"
    by (metis card_mono)
  with length_ids_of [of won "sessions w"] claimed_length [of w] show ?thesis
    by simp
qed

lemma claims_counted:
  assumes inv: "claims_inv Q w" and un: "unfailed_inv Q w" and fin: "finite Q"
    and ended: "\<forall>s\<in>set (sessions w). finished s"
  shows "length (claimed_jobs w) = min (length (sessions w)) (card Q)"
proof -
  let ?won = "ids_of won (sessions w)"
  have returned: "\<forall>s\<in>set (sessions w). \<exists>r. s = Claim_returned r"
  proof
    fix s assume "s \<in> set (sessions w)"
    with un ended have "unfailed s" "finished s"
      unfolding unfailed_inv_def by blast+
    then show "\<exists>r. s = Claim_returned r" by (cases s) simp_all
  qed
  then have k: "length (claimed_jobs w) = length ?won"
    unfolding claimed_jobs_def by (rule returned_length)
  from inv have "distinct ?won" unfolding claims_inv_def by blast
  then have card: "card (set ?won) = length ?won" by (rule distinct_card)
  from inv have sub: "set ?won \<subseteq> Q" unfolding claims_inv_def by blast
  with fin card have le_M: "length ?won \<le> card Q"
    by (metis card_mono)
  have le_N: "length ?won \<le> length (sessions w)" by (rule length_ids_of)
  show ?thesis
  proof (cases "Claim_returned None \<in> set (sessions w)")
    case True
    then have "\<exists>s\<in>set (sessions w). found_nothing s"
      by (intro bexI [of _ "Claim_returned None"]) simp_all
    with un have "Q \<subseteq> set ?won" unfolding unfailed_inv_def by blast
    with sub have "set ?won = Q" by blast
    with card have "length ?won = card Q" by simp
    with le_N k show ?thesis by simp
  next
    case False
    with returned have "length ?won = length (sessions w)" by (rule all_claimed_length)
    with le_M k show ?thesis by simp
  qed
qed

lemma other_turn:
  assumes "caller t \<noteq> c"
  shows "sessions (caller_step w t) ! c = sessions w ! c"
  using assms by (simp add: caller_step_def split: prod.splits)

lemma statement_uses_turn:
  "statements_left (fst (caller_statement s now fault locked db)) \<le> statements_left s - 1"
  by (cases s) (auto simp: DB_RETRY_ATTEMPTS_def split: option.splits list.splits)

lemma own_turn:
  assumes "caller t = c" and "c < length (sessions w)"
  shows "statements_left (sessions (caller_step w t) ! c) \<le> statements_left (sessions w ! c) - 1"
proof -
  obtain s' db' where stmt:
    "caller_statement (sessions w ! c) (at_time t) (failing t)
       (ids_of held (sessions w)) (committed w) = (s', db')"
    by (cases "caller_statement (sessions w ! c) (at_time t) (failing t)
       (ids_of held (sessions w)) (committed w)")
  from statement_uses_turn
    [of "sessions w ! c" "at_time t" "failing t" "ids_of held (sessions w)" "committed w"] stmt
  have "statements_left s' \<le> statements_left (sessions w ! c) - 1"
    by simp
  with assms stmt show ?thesis
    by (simp add: caller_step_def)
qed

lemma statements_left_run:
  assumes "c < N"
  shows "statements_left (sessions (interleave schedule (callers_start N db)) ! c)
           \<le> 9 - length (filter (\<lambda>t. caller t = c) schedule)"
proof (induction schedule rule: rev_induct)
  case Nil
  from assms show ?case by (simp add: interleave_def callers_start_def DB_RETRY_ATTEMPTS_def)
next
  case (snoc t schedule)
  let ?w = "interleave schedule (callers_start N db)"
  have len: "length (sessions ?w) = N"
    by (simp add: length_interleave callers_start_def)
  show ?case
  proof (cases "caller t = c")
    case True
    from own_turn [OF True, of ?w] assms len
    have "statements_left (sessions (caller_step ?w t) ! c)
            \<le> statements_left (sessions ?w ! c) - 1" by simp
    with snoc True show ?thesis by (simp add: interleave_snoc)
  next
    case False
    with snoc other_turn [OF False, of ?w] show ?thesis by (simp add: interleave_snoc)
  qed
qed

lemma statements_left_zero: "statements_left s = 0 \<Longrightarrow> finished s"
  by (cases s) simp_all

text \<open>
  Claim C1.  \<open>N\<close> callers of \<open>getNextJob\<close> run against a table whose ids are distinct,
  their round trips interleaved in any order by \<open>schedule\<close>, each round trip failing
  or not as the schedule says, and no job is added.  At every moment no two callers
  have locked or claimed the same row, and every row locked or claimed was queued at
  the start.  A caller that had nine turns has returned or thrown.  The number of jobs
  claimed is never more than the smaller of \<open>N\<close> and the number of rows queued at the
  start; and when no round trip has failed and all callers have returned, it is that
  number.
\<close>

theorem concurrent_claims_exclusive_and_counted:
  assumes ids: "distinct (map job_id (render_jobs db))"
    and w: "w = interleave schedule (callers_start N db)"
  shows "(\<forall>c c' i. c < N \<and> c' < N \<and> c \<noteq> c' \<and> won (sessions w ! c) = Some i
            \<longrightarrow> won (sessions w ! c') \<noteq> Some i) \<and>
         (\<forall>c i. c < N \<and> won (sessions w ! c) = Some i \<longrightarrow> i \<in> queued_ids db) \<and>
         (\<forall>c. c < N \<and> 9 \<le> length (filter (\<lambda>t. caller t = c) schedule)
            \<longrightarrow> finished (sessions w ! c)) \<and>
         length (claimed_jobs w)
           \<le> min N (length (filter (\<lambda>j. status j = Queued) (render_jobs db))) \<and>
         ((\<forall>t\<in>set schedule. failing t = None) \<and> (\<forall>c<N. finished (sessions w ! c)) \<longrightarrow>
            length (claimed_jobs w)
              = min N (length (filter (\<lambda>j. status j = Queued) (render_jobs db))))"
proof -
  have inv: "claims_inv (queued_ids db) w"
    unfolding w by (intro interleave_inv callers_start_inv)
  have len: "length (sessions w) = N"
    unfolding w by (simp add: length_interleave callers_start_def)
  from inv have distinct: "distinct (ids_of won (sessions w))"
    and sub: "set (ids_of won (sessions w)) \<subseteq> queued_ids db"
    unfolding claims_inv_def by blast+
  have exclusive: "\<forall>c c' i. c < N \<and> c' < N \<and> c \<noteq> c' \<and> won (sessions w ! c) = Some i
            \<longrightarrow> won (sessions w ! c') \<noteq> Some i"
    using ids_of_distinct_nth [OF distinct] len by blast
  have queued: "\<forall>c i. c < N \<and> won (sessions w ! c) = Some i \<longrightarrow> i \<in> queued_ids db"
    using won_nth [of _ "sessions w"] sub len by blast
  have returns: "\<forall>c. c < N \<and> 9 \<le> length (filter (\<lambda>t. caller t = c) schedule)
            \<longrightarrow> finished (sessions w ! c)"
  proof (intro allI impI)
    fix c assume c: "c < N \<and> 9 \<le> length (filter (\<lambda>t. caller t = c) schedule)"
    with statements_left_run [of c N schedule db]
    have "statements_left (sessions w ! c) = 0" unfolding w by simp
    then show "finished (sessions w ! c)" by (rule statements_left_zero)
  qed
  have bounded: "length (claimed_jobs w)
           \<le> min N (length (filter (\<lambda>j. status j = Queued) (render_jobs db)))"
    using claims_bounded [OF inv finite_queued_ids] len card_queued_ids [OF ids] by simp
  have counted: "(\<forall>t\<in>set schedule. failing t = None) \<and> (\<forall>c<N. finished (sessions w ! c)) \<longrightarrow>
            length (claimed_jobs w)
              = min N (length (filter (\<lambda>j. status j = Queued) (render_jobs db)))"
  proof
    assume quiet: "(\<forall>t\<in>set schedule. failing t = None) \<and> (\<forall>c<N. finished (sessions w ! c))"
    with len have ended: "\<forall>s\<in>set (sessions w). finished s"
      by (metis in_set_conv_nth)
    from quiet have un: "unfailed_inv (queued_ids db) w"
      unfolding w by (intro interleave_unfailed callers_start_inv callers_start_unfailed) simp
    from claims_counted [OF inv un finite_queued_ids ended] len card_queued_ids [OF ids]
    show "length (claimed_jobs w)
              = min N (length (filter (\<lambda>j. status j = Queued) (render_jobs db)))"
      by simp
  qed
  from exclusive queued returns bounded counted show ?thesis by (intro conjI)
qed

theorem concurrent_claims_exclusive_and_counted_witness:
  "(let row = (\<lambda>i s t. \<lparr>job_id = i, status = s, user_id = 1,
                  input_props = \<lparr>durationInFrames = 900, fps = 30\<rparr>, progress = 0,
                  output_url = None, error = None, created_at = t, started_at = None,
                  completed_at = None\<rparr>);
        db = \<lparr>render_jobs = [row ''a'' Queued 30, row ''b'' Queued 10, row ''c'' Completed 5],
              users = []\<rparr>;
        schedule = map (\<lambda>(c, time). \<lparr>caller = c, at_time = time, failing = None\<rparr>)
          [(0, 1), (1, 1), (2, 1), (0, 2), (1, 2), (2, 2), (0, 3), (1, 3), (2, 3),
           (0, 4), (1, 4), (2, 4), (0, 5), (1, 5), (2, 5), (0, 6), (1, 6)];
        w = interleave schedule (callers_start 3 db)
    in distinct (map job_id (render_jobs db)) \<and>
       sessions w = [Claim_returned (Some (row ''b'' Queued 10)),
                     Claim_returned (Some (row ''a'' Queued 30)), Claim_returned None] \<and>
       won (sessions w ! 0) \<noteq> won (sessions w ! 1) \<and>
       length (claimed_jobs w) = 2 \<and>
       map started_at (render_jobs (committed w)) = [Some 3, Some 3, None])"
proof -
  define row where "row = (\<lambda>i s t. \<lparr>job_id = i, status = s, user_id = 1,
                  input_props = \<lparr>durationInFrames = 900, fps = 30\<rparr>, progress = 0 :: rat,
                  output_url = None :: string option, error = None :: string option,
                  created_at = t, started_at = None :: int option,
                  completed_at = None :: int option\<rparr>)"
  define db where "db = \<lparr>render_jobs =
                    [row ''a'' Queued 30, row ''b'' Queued 10, row ''c'' Completed 5],
                  users = []\<rparr>"
  define schedule :: "turn list"
    where "schedule = map (\<lambda>(c, time). \<lparr>caller = c, at_time = time, failing = None\<rparr>)
          [(0, 1), (1, 1), (2, 1), (0, 2), (1, 2), (2, 2), (0, 3), (1, 3), (2, 3),
           (0, 4), (1, 4), (2, 4), (0, 5), (1, 5), (2, 5), (0, 6), (1, 6)]"
  define w where "w = interleave schedule (callers_start 3 db)"
  have ids: "distinct (map job_id (render_jobs db))"
    by (simp add: db_def row_def)
  note claim = concurrent_claims_exclusive_and_counted [OF ids w_def]
  have state: "sessions w = [Claim_returned (Some (row ''b'' Queued 10)),
                     Claim_returned (Some (row ''a'' Queued 30)), Claim_returned None]"
    "map started_at (render_jobs (committed w)) = [Some 3, Some 3, None]"
    unfolding w_def schedule_def db_def row_def by code_simp+
  have quiet: "\<forall>t\<in>set schedule. failing t = None"
    by (simp add: schedule_def)
  have "finished (sessions w ! c)" if "c < 3" for c
  proof -
    from that have "c = 0 \<or> c = 1 \<or> c = 2" by arith
    with state(1) show ?thesis by auto
  qed
  with claim quiet have "length (claimed_jobs w)
      = min 3 (length (filter (\<lambda>j. status j = Queued) (render_jobs db)))"
    by blast
  also have "\<dots> = 2"
    by (simp add: db_def row_def)
  finally have counted: "length (claimed_jobs w) = 2" .
  from claim have "(0 :: nat) < 3 \<and> (1 :: nat) < 3 \<and> (0 :: nat) \<noteq> 1 \<and> won (sessions w ! 0) = Some ''b''
      \<longrightarrow> won (sessions w ! 1) \<noteq> Some ''b''"
    by blast
  then have "won (sessions w ! 0) = Some ''b'' \<longrightarrow> won (sessions w ! 1) \<noteq> Some ''b''"
    by simp
  with state(1) have apart: "won (sessions w ! 0) \<noteq> won (sessions w ! 1)"
    by (simp add: row_def)
  from ids state apart counted show ?thesis
    unfolding Let_def row_def [symmetric] db_def [symmetric] schedule_def [symmetric]
      w_def [symmetric] by simp
qed

text \<open>
  Two callers and one queued job.  The first caller locks the row; the second finds it
  locked, rolls back and returns none.  Then the round trip of the first caller's
  \<^verbatim>\<open>UPDATE\<close> fails: it rolls back and throws.  Both calls have ended, no job was
  claimed, and the row is still queued.
\<close>

theorem failed_update_loses_the_claim:
  "(let row = (\<lambda>i s t. \<lparr>job_id = i, status = s, user_id = 1,
                  input_props = \<lparr>durationInFrames = 900, fps = 30\<rparr>, progress = 0,
                  output_url = None, error = None, created_at = t, started_at = None,
                  completed_at = None\<rparr>);
        db = \<lparr>render_jobs = [row ''a'' Queued 10], users = []\<rparr>;
        ok = (\<lambda>c. \<lparr>caller = c, at_time = 1, failing = None\<rparr>);
        w = interleave [ok 0, ok 0, ok 0, ok 0, ok 1, ok 1, ok 1, ok 1, ok 1,
                        \<lparr>caller = 0, at_time = 2, failing = Some ''connection reset''\<rparr>, ok 0]
              (callers_start 2 db)
    in distinct (map job_id (render_jobs db)) \<and>
       sessions w = [Claim_threw ''connection reset'' None, Claim_returned None] \<and>
       (\<forall>s\<in>set (sessions w). finished s) \<and>
       claimed_jobs w = [] \<and>
       committed w = db \<and>
       min 2 (length (filter (\<lambda>j. status j = Queued) (render_jobs db))) = 1)"
  by code_simp

end
